theory Spec2Isabelle
  imports Complex_Main
begin

section \<open>Decoded page data\<close>

text \<open>
  The value \<^verbatim>\<open>json.loads\<close> returns: \<^verbatim>\<open>None\<close>, a bool, an int, a float, a str, a list or
  a dict. A dict keeps its entries in source order (\<^verbatim>\<open>val.items()\<close> walks them in that
  order), so an object is the list of its entries; the keys of a dict are distinct, and
  nothing below depends on it. A float is represented by the rational it denotes; the
  traversal and the record mapping only ever test a number for zero.
\<close>

datatype json =
    JNull
  | JBool bool
  | JInt int
  | JFloat rat
  | JStr string
  | JArr "json list"
  | JObj "(string \<times> json) list"

subsection \<open>\<^verbatim>\<open>ReviewScraper.traverse\<close>\<close>

text \<open>
  \<^verbatim>\<open>
  def traverse(self, val):
      if isinstance(val, dict):
          for k, v in val.items():
              if k == "reviews":
                  yield v
              else:
                  yield from self.traverse(v)
      elif isinstance(val, list):
          for v in val:
              yield from self.traverse(v)
  \<close>
  The generator is the list of the values it yields, in the order it yields them.
  \<open>traverse_items\<close> is the loop over \<^verbatim>\<open>val.items()\<close>, \<open>traverse_elems\<close> the loop over the
  elements of a list.
\<close>

fun traverse :: "json \<Rightarrow> json list"
  and traverse_items :: "(string \<times> json) list \<Rightarrow> json list"
  and traverse_elems :: "json list \<Rightarrow> json list" where
  "traverse (JObj kvs) = traverse_items kvs"
| "traverse (JArr vs) = traverse_elems vs"
| "traverse JNull = []"
| "traverse (JBool b) = []"
| "traverse (JInt n) = []"
| "traverse (JFloat q) = []"
| "traverse (JStr s) = []"
| "traverse_items [] = []"
| "traverse_items ((k, v) # kvs) =
     (if k = ''reviews'' then [v] else traverse v) @ traverse_items kvs"
| "traverse_elems [] = []"
| "traverse_elems (v # vs) = traverse v @ traverse_elems vs"

text \<open>
  The tree search as the specification words it: a depth-first walk that, at an object
  entry whose key is the collection key, yields the entry's value as it is and does not
  descend into it, walks into the values of the other entries, and walks into every
  element of an array; scalars are leaves.
\<close>

definition collection_key :: string where
  "collection_key = ''reviews''"

fun tree_search :: "json \<Rightarrow> json list" where
  "tree_search (JObj kvs) =
     concat (map (\<lambda>(k, v). if k = collection_key then [v] else tree_search v) kvs)"
| "tree_search (JArr vs) = concat (map tree_search vs)"
| "tree_search _ = []"

text \<open>The collection key occurs somewhere in the value, at any depth.\<close>

fun key_occurs :: "json \<Rightarrow> bool" where
  "key_occurs (JObj kvs) = (\<exists>(k, v) \<in> set kvs. k = collection_key \<or> key_occurs v)"
| "key_occurs (JArr vs) = (\<exists>v \<in> set vs. key_occurs v)"
| "key_occurs _ = False"


section \<open>Python values and exceptions\<close>

text \<open>
  The exceptions that can leave the functions modelled here: \<^verbatim>\<open>requests.get\<close> failing, a
  \<^verbatim>\<open>.group\<close> call on the \<^verbatim>\<open>None\<close> that \<^verbatim>\<open>re.search\<close> returns when the marker is absent,
  \<^verbatim>\<open>json.loads\<close> on text that is not JSON, a missing dict key, subscripting or iterating a
  value that does not allow it, and a database error.
\<close>

datatype error =
    TransportError
  | AttributeError
  | JSONDecodeError
  | KeyError string
  | TypeError
  | ProgrammingError

text \<open>\<^verbatim>\<open>if reviews:\<close> on a decoded value.\<close>

fun truthy :: "json \<Rightarrow> bool" where
  "truthy JNull = False"
| "truthy (JBool b) = b"
| "truthy (JInt n) = (n \<noteq> 0)"
| "truthy (JFloat q) = (q \<noteq> 0)"
| "truthy (JStr s) = (s \<noteq> [])"
| "truthy (JArr vs) = (vs \<noteq> [])"
| "truthy (JObj kvs) = (kvs \<noteq> [])"

text \<open>
  \<^verbatim>\<open>enumerate(reviews)\<close>: a list gives its elements, a dict its keys, a str its characters;
  anything else is not iterable.
\<close>

fun iterate :: "json \<Rightarrow> error + json list" where
  "iterate (JArr vs) = Inr vs"
| "iterate (JObj kvs) = Inr (map (\<lambda>(k, v). JStr k) kvs)"
| "iterate (JStr s) = Inr (map (\<lambda>c. JStr [c]) s)"
| "iterate JNull = Inl TypeError"
| "iterate (JBool b) = Inl TypeError"
| "iterate (JInt n) = Inl TypeError"
| "iterate (JFloat q) = Inl TypeError"

text \<open>
  \<^verbatim>\<open>r[k]\<close> with a str key: a dict returns the value or raises \<^verbatim>\<open>KeyError\<close>; a list, a
  str and the scalars raise \<^verbatim>\<open>TypeError\<close>.
\<close>

fun subscript :: "json \<Rightarrow> string \<Rightarrow> error + json" where
  "subscript (JObj kvs) k = (case map_of kvs k of None \<Rightarrow> Inl (KeyError k) | Some v \<Rightarrow> Inr v)"
| "subscript JNull k = Inl TypeError"
| "subscript (JBool b) k = Inl TypeError"
| "subscript (JInt n) k = Inl TypeError"
| "subscript (JFloat q) k = Inl TypeError"
| "subscript (JStr s) k = Inl TypeError"
| "subscript (JArr vs) k = Inl TypeError"

text \<open>A chain \<^verbatim>\<open>r[k1][k2]...\<close>, evaluated left to right.\<close>

fun subscripts :: "json \<Rightarrow> string list \<Rightarrow> error + json" where
  "subscripts v [] = Inr v"
| "subscripts v (k # ks) = (case subscript v k of Inl e \<Rightarrow> Inl e | Inr w \<Rightarrow> subscripts w ks)"

text \<open>
  \<^verbatim>\<open>next(traverser, _exhausted)\<close>: the first value the generator yields, or the sentinel
  object when it yields nothing. No decoded value compares equal to the sentinel, which is
  a fresh \<^verbatim>\<open>object()\<close>.
\<close>

datatype peeked = Exhausted | Yielded json

fun next_or_exhausted :: "json list \<Rightarrow> peeked" where
  "next_or_exhausted [] = Exhausted"
| "next_or_exhausted (v # vs) = Yielded v"

section \<open>Reviews, users, attractions and the store\<close>

text \<open>
  Modelled from the spec: the classes \<^verbatim>\<open>Review\<close>, \<^verbatim>\<open>User\<close> and \<^verbatim>\<open>Attraction\<close> of the package's
  \<^verbatim>\<open>__init__\<close> module, which is not part of the sources at hand. A fresh object has every
  field \<^verbatim>\<open>None\<close> (\<open>JNull\<close>), and \<^verbatim>\<open>tuple(obj.__dict__.values())\<close> lists the fields in the order of
  the columns of the INSERT statement. The attraction id of a review is an integer, set
  before the review is written; in a fresh review it is 0 here. The \<open>location\<close> of a user
  holds the value whose \<^verbatim>\<open>json.dumps\<close> text is stored, \<open>None\<close> while it is unset.
\<close>

record review =
  ID :: json
  title :: json
  rating :: json
  date :: json
  full :: json
  attr_ID :: int
  user_profile :: json

record user =
  profile :: json
  location :: "json option"
  contributions :: json
  helpful_votes :: json

record attraction =
  attraction_ID :: int
  attraction_location :: "(rat \<times> rat) option"
  num_reviews :: int

definition Review :: "review" where
  "Review = \<lparr>ID = JNull, title = JNull, rating = JNull, date = JNull, full = JNull,
             attr_ID = 0, user_profile = JNull\<rparr>"

definition User :: "user" where
  "User = \<lparr>profile = JNull, location = None, contributions = JNull, helpful_votes = JNull\<rparr>"

text \<open>
  The statements \<^verbatim>\<open>mogrify\<close> builds, one constructor per query text of the source, with
  the parameters in the order they are bound.
\<close>

datatype statement =
    UpdateAttraction rat rat int int
  | InsertReview review
  | InsertUser user
  | SetScraped bool int

record attraction_row =
  row_id :: int
  row_url :: string
  attr_type :: string
  geom :: "(rat \<times> rat) option"
  row_num_reviews :: "int option"
  scraped :: bool

record database =
  attractions :: "attraction_row list"
  reviews :: "review list"
  users :: "user list"

text \<open>
  Modelled from the spec: the persistence gateway behind \<^verbatim>\<open>Scraper.update_record\<close> and the
  tables it writes, neither of which is part of the sources at hand. An UPDATE changes the
  rows with the given id. \<^verbatim>\<open>INSERT ... ON CONFLICT DO NOTHING\<close> adds the row unless a row
  with the same identity (the review id, the user profile) is there already, in which case
  the table is left as it is.
\<close>

fun execute :: "statement \<Rightarrow> database \<Rightarrow> database" where
  "execute (UpdateAttraction x y n i) d =
     d\<lparr>attractions :=
         map (\<lambda>r. if row_id r = i then r\<lparr>geom := Some (x, y), row_num_reviews := Some n\<rparr> else r)
           (attractions d)\<rparr>"
| "execute (SetScraped b i) d =
     d\<lparr>attractions := map (\<lambda>r. if row_id r = i then r\<lparr>scraped := b\<rparr> else r) (attractions d)\<rparr>"
| "execute (InsertReview r) d =
     (if ID r \<in> set (map ID (reviews d)) then d else d\<lparr>reviews := reviews d @ [r]\<rparr>)"
| "execute (InsertUser u) d =
     (if profile u \<in> set (map profile (users d)) then d else d\<lparr>users := users d @ [u]\<rparr>)"

section \<open>Effects\<close>

text \<open>
  What the scraper does to the outside world, in the order it does it: a line printed, a
  sleep, an HTTP GET, a statement executed and committed.
\<close>

datatype message =
    ScrapingPage string
  | Reloading string
  | WeirdStuff int
  | MissingInfo string int int int string
  | UpdatingUser json
  | EmptyUserInformation
  | ScrapedSet int bool
  | Details "(rat \<times> rat) option" int int

datatype pause = RetryPause | PagePause

datatype event = Print message | Sleep pause | Get string | Exec statement

record state =
  db :: database
  trace :: "event list"
  requests :: nat

definition emit :: "event \<Rightarrow> state \<Rightarrow> state" where
  "emit e s = s\<lparr>trace := trace s @ [e]\<rparr>"

definition update_record :: "statement \<Rightarrow> state \<Rightarrow> state" where
  "update_record q s = emit (Exec q) (s\<lparr>db := execute q (db s)\<rparr>)"


section \<open>Writing to the store\<close>

text \<open>
  \<^verbatim>\<open>update_review\<close>, \<^verbatim>\<open>update_user\<close>, \<^verbatim>\<open>update_attraction\<close> and \<^verbatim>\<open>set_scraped\<close> build one
  statement each and hand it to \<^verbatim>\<open>update_record\<close>. \<^verbatim>\<open>update_user\<close> prints the profile
  first and writes only when the profile is not \<^verbatim>\<open>None\<close>. \<^verbatim>\<open>update_attraction\<close> reads
  \<^verbatim>\<open>attr.location[1]\<close> and \<^verbatim>\<open>attr.location[0]\<close>, which raises when the location is \<^verbatim>\<open>None\<close>.
\<close>

definition update_review :: "review \<Rightarrow> state \<Rightarrow> state" where
  "update_review r s = update_record (InsertReview r) s"

definition update_user :: "user \<Rightarrow> state \<Rightarrow> state" where
  "update_user u s =
     (let s1 = emit (Print (UpdatingUser (profile u))) s
      in if profile u \<noteq> JNull then update_record (InsertUser u) s1
         else emit (Print EmptyUserInformation) s1)"

definition update_attraction :: "attraction \<Rightarrow> state \<Rightarrow> (error + unit) \<times> state" where
  "update_attraction attr s =
     (case attraction_location attr of
        None \<Rightarrow> (Inl TypeError, s)
      | Some (l0, l1) \<Rightarrow>
          (Inr (), update_record
                     (UpdateAttraction l1 l0 (num_reviews attr) (attraction_ID attr)) s))"

definition set_scraped :: "attraction \<Rightarrow> bool \<Rightarrow> state \<Rightarrow> state" where
  "set_scraped attr boolean s =
     update_record (SetScraped boolean (attraction_ID attr))
       (emit (Print (ScrapedSet (attraction_ID attr) boolean)) s)"

text \<open>\<^verbatim>\<open>print_missing_info\<close> prints the page and review numbers counted from one.\<close>

definition print_missing_info ::
  "string \<Rightarrow> int \<Rightarrow> int \<Rightarrow> int \<Rightarrow> string \<Rightarrow> state \<Rightarrow> state" where
  "print_missing_info info_type attr page_no review_no url s =
     emit (Print (MissingInfo info_type attr (page_no + 1) (review_no + 1) url)) s"

section \<open>\<^verbatim>\<open>ReviewScraper.scrape_page\<close>\<close>

subsection \<open>Mapping one raw record\<close>

text \<open>
  Lines 251 to 257: the five required fields are read with plain subscripts, in the order
  id, title, rating, text, publishedDate; the first one that fails raises.
\<close>

definition required_fields :: "int \<Rightarrow> json \<Rightarrow> error + review" where
  "required_fields attr r =
     (case subscript r ''id'' of Inl e \<Rightarrow> Inl e | Inr i \<Rightarrow>
     (case subscript r ''title'' of Inl e \<Rightarrow> Inl e | Inr t \<Rightarrow>
     (case subscript r ''rating'' of Inl e \<Rightarrow> Inl e | Inr g \<Rightarrow>
     (case subscript r ''text'' of Inl e \<Rightarrow> Inl e | Inr f \<Rightarrow>
     (case subscript r ''publishedDate'' of Inl e \<Rightarrow> Inl e | Inr d \<Rightarrow>
        Inr (Review\<lparr>ID := i, title := t, rating := g, full := f, attr_ID := attr,
                    date := d\<rparr>))))))"

text \<open>
  Lines 258 to 290: four \<^verbatim>\<open>try\<close> blocks with a bare \<^verbatim>\<open>except\<close>, each reading one path below
  \<^verbatim>\<open>userProfile\<close>; a failure prints the missing information and leaves the field as it was.
  Then the user is written, then the review.
\<close>

definition scrape_record ::
  "string \<Rightarrow> int \<Rightarrow> int \<Rightarrow> int \<Rightarrow> json \<Rightarrow> state \<Rightarrow> (error + unit) \<times> state" where
  "scrape_record url attr index ridx r s =
     (case required_fields attr r of
        Inl e \<Rightarrow> (Inl e, s)
      | Inr review0 \<Rightarrow>
          (let (review1, user1, s1) =
                 (case subscripts r [''userProfile'', ''route'', ''url''] of
                    Inr v \<Rightarrow> (review0\<lparr>user_profile := v\<rparr>, User\<lparr>profile := v\<rparr>, s)
                  | Inl e \<Rightarrow>
                      (review0, User, print_missing_info ''user profile'' attr index ridx url s));
               (user2, s2) =
                 (case subscripts r [''userProfile'', ''hometown''] of
                    Inr v \<Rightarrow> (user1\<lparr>location := Some v\<rparr>, s1)
                  | Inl e \<Rightarrow>
                      (user1, print_missing_info ''user location'' attr index ridx url s1));
               (user3, s3) =
                 (case subscripts r [''userProfile'', ''contributionCounts'', ''sumAllUgc''] of
                    Inr v \<Rightarrow> (user2\<lparr>contributions := v\<rparr>, s2)
                  | Inl e \<Rightarrow>
                      (user2, print_missing_info ''user contributions'' attr index ridx url s2));
               (user4, s4) =
                 (case subscripts r [''userProfile'', ''contributionCounts'', ''helpfulVote''] of
                    Inr v \<Rightarrow> (user3\<lparr>helpful_votes := v\<rparr>, s3)
                  | Inl e \<Rightarrow> (user3, print_missing_info ''helpful'' attr index ridx url s3))
           in (Inr (), update_review review1 (update_user user4 s4))))"

subsection \<open>The loops over the yielded lists and their records\<close>

text \<open>\<^verbatim>\<open>for ridx, r in enumerate(reviews)\<close>: an exception ends the loop.\<close>

fun scrape_records ::
  "string \<Rightarrow> int \<Rightarrow> int \<Rightarrow> int \<Rightarrow> json list \<Rightarrow> state \<Rightarrow> (error + unit) \<times> state" where
  "scrape_records url attr index ridx [] s = (Inr (), s)"
| "scrape_records url attr index ridx (r # rs) s =
     (case scrape_record url attr index ridx r s of
        (Inl e, s1) \<Rightarrow> (Inl e, s1)
      | (Inr u, s1) \<Rightarrow> scrape_records url attr index (ridx + 1) rs s1)"

text \<open>
  \<^verbatim>\<open>for reviews in self.traverse(data)\<close>, lines 245 to 293 (the loop variable is \<open>revs\<close>
  here): a truthy value is enumerated and its records mapped and written; a falsy one is
  reported with review number \<open>-2\<close>.
\<close>

definition scrape_candidate ::
  "string \<Rightarrow> int \<Rightarrow> int \<Rightarrow> json \<Rightarrow> state \<Rightarrow> (error + unit) \<times> state" where
  "scrape_candidate url attr index revs s =
     (if truthy revs then
        (case iterate revs of
           Inl e \<Rightarrow> (Inl e, s)
         | Inr rs \<Rightarrow> scrape_records url attr index 0 rs s)
      else (Inr (), print_missing_info ''reviews'' attr index (- 2) url s))"

fun scrape_candidates ::
  "string \<Rightarrow> int \<Rightarrow> int \<Rightarrow> json list \<Rightarrow> state \<Rightarrow> (error + unit) \<times> state" where
  "scrape_candidates url attr index [] s = (Inr (), s)"
| "scrape_candidates url attr index (revs # rest) s =
     (case scrape_candidate url attr index revs s of
        (Inl e, s1) \<Rightarrow> (Inl e, s1)
      | (Inr u, s1) \<Rightarrow> scrape_candidates url attr index rest s1)"

subsection \<open>Retrieving the page\<close>

text \<open>
  What one \<^verbatim>\<open>get(url).text\<close> followed by \<^verbatim>\<open>re.search(...).group(1)\<close> can come to:
  the request raises; the body has no match for the marker pattern, so \<^verbatim>\<open>re.search\<close>
  returns \<^verbatim>\<open>None\<close>; or a text is captured. The captured text is represented by what
  \<^verbatim>\<open>json.loads\<close> makes of it after \<^verbatim>\<open>pageManifest\<close> has been quoted: \<open>Some\<close> value, or
  \<open>None\<close> when \<^verbatim>\<open>json.loads\<close> raises. The network answers the \<open>n\<close>-th request of the run
  as a function of its number and its URL.
\<close>

datatype response = TransportFailure | MarkerAbsent | Captured "json option"

type_synonym network = "nat \<Rightarrow> string \<Rightarrow> response"

definition fetch :: "network \<Rightarrow> string \<Rightarrow> state \<Rightarrow> response \<times> state" where
  "fetch net url s = (net (requests s) url, emit (Get url) (s\<lparr>requests := Suc (requests s)\<rparr>))"

definition json_loads :: "json option \<Rightarrow> error + json" where
  "json_loads c = (case c of None \<Rightarrow> Inl JSONDecodeError | Some v \<Rightarrow> Inr v)"

text \<open>
  Lines 220 to 228: \<^verbatim>\<open>while True\<close> around a \<^verbatim>\<open>try\<close> that covers the request and the
  search; its bare \<^verbatim>\<open>except\<close> prints, sleeps one second and tries again. The loop has no
  bound: \<open>None\<close> is the run that never leaves it.
\<close>

partial_function (option) fetch_loop ::
  "network \<Rightarrow> string \<Rightarrow> state \<Rightarrow> (json option \<times> state) option" where
  "fetch_loop net url s =
     (case fetch net url s of
        (TransportFailure, s1) \<Rightarrow>
          fetch_loop net url (emit (Sleep RetryPause) (emit (Print (Reloading url)) s1))
      | (MarkerAbsent, s1) \<Rightarrow>
          fetch_loop net url (emit (Sleep RetryPause) (emit (Print (Reloading url)) s1))
      | (Captured c, s1) \<Rightarrow> Some (c, s1))"

text \<open>
  Lines 233 to 243: while the traversal of the decoded data yields nothing, print, request
  the page again, search, quote, decode and traverse again. Nothing in this loop is inside
  a \<^verbatim>\<open>try\<close>, and it does not sleep.
\<close>

partial_function (option) retry_loop ::
  "network \<Rightarrow> string \<Rightarrow> int \<Rightarrow> json \<Rightarrow> state \<Rightarrow> ((error + json) \<times> state) option" where
  "retry_loop net url index data s =
     (if next_or_exhausted (traverse data) = Exhausted then
        (case fetch net url (emit (Print (WeirdStuff index)) s) of
           (TransportFailure, s1) \<Rightarrow> Some (Inl TransportError, s1)
         | (MarkerAbsent, s1) \<Rightarrow> Some (Inl AttributeError, s1)
         | (Captured c, s1) \<Rightarrow>
             (case json_loads c of
                Inl e \<Rightarrow> Some (Inl e, s1)
              | Inr data' \<Rightarrow> retry_loop net url index data' s1))
      else Some (Inr data, s))"

text \<open>
  Lines 220 to 243 together: the first loop, the quoting and decoding of what it captured
  (outside the \<^verbatim>\<open>try\<close>, so a \<^verbatim>\<open>JSONDecodeError\<close> is not caught), and the second loop.
\<close>

definition retrieve ::
  "network \<Rightarrow> string \<Rightarrow> int \<Rightarrow> state \<Rightarrow> ((error + json) \<times> state) option" where
  "retrieve net url index s =
     (case fetch_loop net url s of
        None \<Rightarrow> None
      | Some (c, s1) \<Rightarrow>
          (case json_loads c of
             Inl e \<Rightarrow> Some (Inl e, s1)
           | Inr data \<Rightarrow> retry_loop net url index data s1))"

text \<open>
  The whole of \<^verbatim>\<open>scrape_page\<close>: print the URL, retrieve the data, then loop over a new
  traversal of the data the second loop ended with.
\<close>

definition scrape_page ::
  "network \<Rightarrow> string \<Rightarrow> int \<Rightarrow> int \<Rightarrow> state \<Rightarrow> ((error + unit) \<times> state) option" where
  "scrape_page net url attr index s =
     (case retrieve net url index (emit (Print (ScrapingPage url)) s) of
        None \<Rightarrow> None
      | Some (Inl e, s2) \<Rightarrow> Some (Inl e, s2)
      | Some (Inr data, s2) \<Rightarrow> Some (scrape_candidates url attr index (traverse data) s2))"

section \<open>\<^verbatim>\<open>ReviewScraper.read_attractions\<close>\<close>

text \<open>
  \<^verbatim>\<open>attr_types\<close> is the str \<^verbatim>\<open>"all"\<close> or a tuple of category names; the default of the
  constructor, \<^verbatim>\<open>("Sights & Landmarks")\<close>, is a str as well. \<^verbatim>\<open>len\<close> is the number of
  characters of a str and the number of elements of a tuple.
\<close>

datatype attr_types = TypesStr string | TypesTuple "string list"

fun len :: "attr_types \<Rightarrow> nat" where
  "len (TypesStr s) = length s"
| "len (TypesTuple ts) = length ts"

definition query_template :: string where
  "query_template = ''SELECT id, url FROM attractions WHERE scraped = False''"

text \<open>
  The query text and the parameter tuple handed to \<^verbatim>\<open>db_iter_cur.execute\<close>, or \<open>None\<close> when
  no branch of the \<^verbatim>\<open>if\<close> chain is taken and nothing is executed. Both filtering branches
  append their text to the template, which already ends in a WHERE clause.
\<close>

definition read_attractions :: "attr_types \<Rightarrow> (string \<times> attr_types option) option" where
  "read_attractions types =
     (if types = TypesStr ''all'' then Some (query_template, None)
      else if len types = 1 then
        Some (query_template
                @ '' WHERE attr_type IN (%s) AND scraped = False ORDER BY ''
                @ [CHR 0x22] @ ''id'' @ [CHR 0x22] @ '' DESC'',
              Some types)
      else if len types > 1 then
        Some (query_template
                @ '' WHERE attr_type IN %s AND scraped = False ORDER BY ''
                @ [CHR 0x22] @ ''id'' @ [CHR 0x22] @ '' DESC'',
              Some types)
      else None)"

text \<open>The words of a query text, and how many of them are the keyword WHERE.\<close>

fun words_from :: "string \<Rightarrow> string \<Rightarrow> string list" where
  "words_from w [] = (if w = [] then [] else [rev w])"
| "words_from w (c # cs) =
     (if c = CHR '' '' then (if w = [] then [] else [rev w]) @ words_from [] cs
      else words_from (c # w) cs)"

definition where_clauses :: "string \<Rightarrow> nat" where
  "where_clauses q = length (filter (\<lambda>w. w = ''WHERE'') (words_from [] q))"

text \<open>
  The database on the texts \<^verbatim>\<open>read_attractions\<close> can send. The template selects id and url
  of the rows not yet scraped, in table order. The two other texts have a second WHERE
  after the first, which PostgreSQL rejects as a syntax error; no further text reaches the
  cursor.
\<close>

definition cursor_execute :: "database \<Rightarrow> string \<Rightarrow> error + (int \<times> string) list" where
  "cursor_execute d q =
     (if q = query_template then
        Inr (map (\<lambda>r. (row_id r, row_url r)) (filter (\<lambda>r. \<not> scraped r) (attractions d)))
      else Inl ProgrammingError)"

section \<open>\<^verbatim>\<open>ReviewScraper.generate_page_links\<close>\<close>

text \<open>
  Modelled from the spec: \<^verbatim>\<open>Scraper.generate_page_links\<close> of the base class, which is not
  part of the sources at hand; the method of \<^verbatim>\<open>ReviewScraper\<close> passes its arguments and
  \<^verbatim>\<open>self.search_type\<close> on to it. The specification has it produce one page URL per page
  index from 0 to the count minus one, in that order, by substituting the index into a
  fixed URL template scoped to the search mode. The template is the parameter
  \<open>page_url\<close>.
\<close>

definition generate_page_links ::
  "(string \<Rightarrow> string \<Rightarrow> nat \<Rightarrow> string) \<Rightarrow> string \<Rightarrow> string \<Rightarrow> int \<Rightarrow> string list" where
  "generate_page_links page_url search_type url amount =
     map (page_url search_type url) [0..<nat amount]"

section \<open>\<^verbatim>\<open>ReviewScraper.do_scrape\<close>\<close>

text \<open>
  The attributes of the scraper object that \<^verbatim>\<open>do_scrape\<close> reads, and its collaborators:
  the network, the detail extractor \<^verbatim>\<open>selenium_utils.get_attr_details\<close> (an opaque function
  from the attraction's URL to location, review count and page count) and the URL
  template of the base class.
\<close>

record scraper =
  base_url :: string
  search_type :: string
  attr_types :: attr_types

record collaborators =
  http :: network
  get_attr_details :: "string \<Rightarrow> (rat \<times> rat) option \<times> int \<times> int"
  page_url :: "string \<Rightarrow> string \<Rightarrow> nat \<Rightarrow> string"

text \<open>
  \<^verbatim>\<open>for index, link in enumerate(links)\<close>: scrape the page, then sleep \<^verbatim>\<open>1.3 + random()\<close>
  seconds. A page that raises ends the loop; a page that never returns ends everything.
\<close>

fun scrape_links ::
  "network \<Rightarrow> int \<Rightarrow> int \<Rightarrow> string list \<Rightarrow> state \<Rightarrow> ((error + unit) \<times> state) option" where
  "scrape_links net attr index [] s = Some (Inr (), s)"
| "scrape_links net attr index (link # links) s =
     (case scrape_page net link attr index s of
        None \<Rightarrow> None
      | Some (Inl e, s1) \<Rightarrow> Some (Inl e, s1)
      | Some (Inr u, s1) \<Rightarrow> scrape_links net attr (index + 1) links (emit (Sleep PagePause) s1))"

text \<open>Lines 306 to 320, the body of the loop over the fetched rows.\<close>

definition scrape_attraction ::
  "collaborators \<Rightarrow> scraper \<Rightarrow> int \<times> string \<Rightarrow> state \<Rightarrow> ((error + unit) \<times> state) option" where
  "scrape_attraction w self row s =
     (let current_url = base_url self @ snd row;
          (loc, n, number_of_pages) = get_attr_details w current_url;
          a = \<lparr>attraction_ID = fst row, attraction_location = loc, num_reviews = n\<rparr>;
          s1 = emit (Print (Details loc n number_of_pages)) s
      in case update_attraction a s1 of
           (Inl e, s2) \<Rightarrow> Some (Inl e, s2)
         | (Inr u, s2) \<Rightarrow>
             (let links = generate_page_links (page_url w) (search_type self) current_url
                            number_of_pages
              in case scrape_links (http w) (attraction_ID a) 0 links s2 of
                   None \<Rightarrow> None
                 | Some (Inl e, s3) \<Rightarrow> Some (Inl e, s3)
                 | Some (Inr u, s3) \<Rightarrow> Some (Inr (), set_scraped a True s3)))"

text \<open>
  \<^verbatim>\<open>while True: row = self.db_iter_cur.fetchone()\<close>: the rows are those the query returned
  when it was executed, on a connection of its own.
\<close>

fun scrape_rows ::
  "collaborators \<Rightarrow> scraper \<Rightarrow> (int \<times> string) list \<Rightarrow> state
     \<Rightarrow> ((error + unit) \<times> state) option" where
  "scrape_rows w self [] s = Some (Inr (), s)"
| "scrape_rows w self (row # rows) s =
     (case scrape_attraction w self row s of
        None \<Rightarrow> None
      | Some (Inl e, s1) \<Rightarrow> Some (Inl e, s1)
      | Some (Inr u, s1) \<Rightarrow> scrape_rows w self rows s1)"

text \<open>
  \<^verbatim>\<open>do_scrape\<close>: when \<^verbatim>\<open>read_attractions\<close> executed nothing, the first \<^verbatim>\<open>fetchone\<close> raises.
\<close>

definition do_scrape ::
  "collaborators \<Rightarrow> scraper \<Rightarrow> state \<Rightarrow> ((error + unit) \<times> state) option" where
  "do_scrape w self s =
     (case read_attractions (attr_types self) of
        None \<Rightarrow> Some (Inl ProgrammingError, s)
      | Some (q, ps) \<Rightarrow>
          (case cursor_execute (db s) q of
             Inl e \<Rightarrow> Some (Inl e, s)
           | Inr rows \<Rightarrow> scrape_rows w self rows s))"


section \<open>What a page writes, as a function of its data\<close>

text \<open>
  The record mapper as the specification words it: the required fields are mapped
  directly, the attraction id comes from the caller, and each optional field of the user
  profile is the value found under its path, or absent when the path cannot be followed.
\<close>

definition optional :: "json \<Rightarrow> string list \<Rightarrow> json" where
  "optional r ks = (case subscripts r ks of Inl e \<Rightarrow> JNull | Inr v \<Rightarrow> v)"

definition absent :: "json \<Rightarrow> string list \<Rightarrow> bool" where
  "absent r ks = (case subscripts r ks of Inl e \<Rightarrow> True | Inr v \<Rightarrow> False)"

definition mapped_review :: "int \<Rightarrow> json \<Rightarrow> review" where
  "mapped_review attr r =
     \<lparr>ID = optional r [''id''], title = optional r [''title''],
      rating = optional r [''rating''], date = optional r [''publishedDate''],
      full = optional r [''text''], attr_ID = attr,
      user_profile = optional r [''userProfile'', ''route'', ''url'']\<rparr>"

definition mapped_user :: "json \<Rightarrow> user" where
  "mapped_user r =
     \<lparr>profile = optional r [''userProfile'', ''route'', ''url''],
      location = (case subscripts r [''userProfile'', ''hometown''] of
                    Inl e \<Rightarrow> None | Inr v \<Rightarrow> Some v),
      contributions = optional r [''userProfile'', ''contributionCounts'', ''sumAllUgc''],
      helpful_votes = optional r [''userProfile'', ''contributionCounts'', ''helpfulVote'']\<rparr>"

text \<open>
  The optional fields with the name each is reported under, in the order the source reads
  them, and the report printed for one of them.
\<close>

definition optional_fields :: "(string \<times> string list) list" where
  "optional_fields =
     [(''user profile'', [''userProfile'', ''route'', ''url'']),
      (''user location'', [''userProfile'', ''hometown'']),
      (''user contributions'', [''userProfile'', ''contributionCounts'', ''sumAllUgc'']),
      (''helpful'', [''userProfile'', ''contributionCounts'', ''helpfulVote''])]"

definition missing_report :: "string \<Rightarrow> int \<Rightarrow> int \<Rightarrow> int \<Rightarrow> string \<Rightarrow> event" where
  "missing_report info_type attr index ridx url =
     Print (MissingInfo info_type attr (index + 1) (ridx + 1) url)"

text \<open>
  The effects of mapping and writing one record whose required fields are there: a report
  for every optional field that is absent, the user line and the user write or its
  refusal, and the review write.
\<close>

definition record_events :: "string \<Rightarrow> int \<Rightarrow> int \<Rightarrow> int \<Rightarrow> json \<Rightarrow> event list" where
  "record_events url attr index ridx r =
     concat (map (\<lambda>(name, path).
                    if absent r path then [missing_report name attr index ridx url] else [])
               optional_fields)
     @ [Print (UpdatingUser (profile (mapped_user r)))]
     @ (if profile (mapped_user r) \<noteq> JNull then [Exec (InsertUser (mapped_user r))]
        else [Print EmptyUserInformation])
     @ [Exec (InsertReview (mapped_review attr r))]"

text \<open>The effects and the outcome of the two loops, up to the first record that raises.\<close>

fun records_events :: "string \<Rightarrow> int \<Rightarrow> int \<Rightarrow> int \<Rightarrow> json list \<Rightarrow> event list" where
  "records_events url attr index ridx [] = []"
| "records_events url attr index ridx (r # rs) =
     (case required_fields attr r of
        Inl e \<Rightarrow> []
      | Inr v \<Rightarrow> record_events url attr index ridx r
                 @ records_events url attr index (ridx + 1) rs)"

fun records_outcome :: "int \<Rightarrow> json list \<Rightarrow> error + unit" where
  "records_outcome attr [] = Inr ()"
| "records_outcome attr (r # rs) =
     (case required_fields attr r of Inl e \<Rightarrow> Inl e | Inr v \<Rightarrow> records_outcome attr rs)"

definition candidate_events :: "string \<Rightarrow> int \<Rightarrow> int \<Rightarrow> json \<Rightarrow> event list" where
  "candidate_events url attr index revs =
     (if truthy revs then
        (case iterate revs of Inl e \<Rightarrow> [] | Inr rs \<Rightarrow> records_events url attr index 0 rs)
      else [missing_report ''reviews'' attr index (- 2) url])"

definition candidate_outcome :: "int \<Rightarrow> json \<Rightarrow> error + unit" where
  "candidate_outcome attr revs =
     (if truthy revs then
        (case iterate revs of Inl e \<Rightarrow> Inl e | Inr rs \<Rightarrow> records_outcome attr rs)
      else Inr ())"

fun candidates_events :: "string \<Rightarrow> int \<Rightarrow> int \<Rightarrow> json list \<Rightarrow> event list" where
  "candidates_events url attr index [] = []"
| "candidates_events url attr index (revs # rest) =
     candidate_events url attr index revs
     @ (case candidate_outcome attr revs of
          Inl e \<Rightarrow> []
        | Inr u \<Rightarrow> candidates_events url attr index rest)"

fun candidates_outcome :: "int \<Rightarrow> json list \<Rightarrow> error + unit" where
  "candidates_outcome attr [] = Inr ()"
| "candidates_outcome attr (revs # rest) =
     (case candidate_outcome attr revs of
        Inl e \<Rightarrow> Inl e
      | Inr u \<Rightarrow> candidates_outcome attr rest)"

text \<open>
  The statements among a sequence of effects, and the state after a sequence of effects
  that are lines printed and statements executed.
\<close>

definition statements :: "event list \<Rightarrow> statement list" where
  "statements evs = concat (map (\<lambda>e. case e of Exec q \<Rightarrow> [q] | _ \<Rightarrow> []) evs)"

definition after_events :: "event list \<Rightarrow> state \<Rightarrow> state" where
  "after_events evs s =
     s\<lparr>db := fold execute (statements evs) (db s), trace := trace s @ evs\<rparr>"

text \<open>The review writes among a sequence of effects, in order.\<close>

definition review_writes :: "event list \<Rightarrow> review list" where
  "review_writes evs =
     concat (map (\<lambda>e. case e of Exec (InsertReview r) \<Rightarrow> [r] | _ \<Rightarrow> []) evs)"

text \<open>The effects a run has added to the trace of the state it started from.\<close>

definition new_events :: "state \<Rightarrow> state \<Rightarrow> event list" where
  "new_events s s' = drop (length (trace s)) (trace s')"

text \<open>
  A well-formed page: every value the tree search yields is a list, and every element of
  such a list is an object that has the five required fields.
\<close>

definition required_keys :: "string list" where
  "required_keys = [''id'', ''title'', ''rating'', ''text'', ''publishedDate'']"

fun has_required :: "json \<Rightarrow> bool" where
  "has_required (JObj kvs) = list_all (\<lambda>k. map_of kvs k \<noteq> None) required_keys"
| "has_required _ = False"

fun elements :: "json \<Rightarrow> json list" where
  "elements (JArr rs) = rs"
| "elements _ = []"

fun record_list :: "json \<Rightarrow> bool" where
  "record_list (JArr rs) = list_all has_required rs"
| "record_list _ = False"

definition well_formed_page :: "json \<Rightarrow> bool" where
  "well_formed_page data = list_all record_list (traverse data)"

section \<open>What the retrieval loops do, as a function of the responses\<close>

text \<open>
  The responses the first loop catches and retries, and the responses from which the
  traversal yields nothing.
\<close>

fun caught :: "response \<Rightarrow> bool" where
  "caught TransportFailure = True"
| "caught MarkerAbsent = True"
| "caught (Captured c) = False"

fun empty_tree :: "response \<Rightarrow> bool" where
  "empty_tree (Captured (Some d)) = (traverse d = [])"
| "empty_tree (Captured None) = False"
| "empty_tree TransportFailure = False"
| "empty_tree MarkerAbsent = False"

text \<open>
  The effects of \<open>n\<close> rounds of the first loop that end in its \<^verbatim>\<open>except\<close> branch, and of \<open>m\<close>
  rounds of the second loop.
\<close>

definition reloads :: "nat \<Rightarrow> string \<Rightarrow> event list" where
  "reloads n url = concat (replicate n [Get url, Print (Reloading url), Sleep RetryPause])"

definition refetches :: "nat \<Rightarrow> string \<Rightarrow> int \<Rightarrow> event list" where
  "refetches m url index = concat (replicate m [Print (WeirdStuff index), Get url])"

text \<open>The state after \<open>k\<close> more requests and the effects \<open>evs\<close>, none of them a statement.\<close>

definition requested :: "nat \<Rightarrow> event list \<Rightarrow> state \<Rightarrow> state" where
  "requested k evs s = s\<lparr>requests := requests s + k, trace := trace s @ evs\<rparr>"

text \<open>
  The effects of the retrieval loops, and the effects of the record loops of a page of
  attraction \<open>attr\<close>: reports, user lines, user writes, and writes of reviews of \<open>attr\<close>.
\<close>

fun retrieval_event :: "event \<Rightarrow> bool" where
  "retrieval_event (Get u) = True"
| "retrieval_event (Sleep p) = True"
| "retrieval_event (Print (Reloading u)) = True"
| "retrieval_event (Print (WeirdStuff i)) = True"
| "retrieval_event e = False"

fun page_write :: "int \<Rightarrow> event \<Rightarrow> bool" where
  "page_write attr (Print (MissingInfo t a p r u)) = True"
| "page_write attr (Print (UpdatingUser p)) = True"
| "page_write attr (Print EmptyUserInformation) = True"
| "page_write attr (Exec (InsertUser u)) = True"
| "page_write attr (Exec (InsertReview r)) = (attr_ID r = attr)"
| "page_write attr e = False"

section \<open>The identities in the store\<close>

text \<open>
  The review ids present in the reviews table, and the reviews a sequence of statements
  tries to insert.
\<close>

definition review_ids :: "database \<Rightarrow> json set" where
  "review_ids d = ID ` set (reviews d)"

definition inserted_reviews :: "statement list \<Rightarrow> review list" where
  "inserted_reviews qs = concat (map (\<lambda>q. case q of InsertReview r \<Rightarrow> [r] | _ \<Rightarrow> []) qs)"

section \<open>What a run does, attraction by attraction\<close>

text \<open>
  The state after \<open>k\<close> more requests and the effects \<open>evs\<close>, the statements among them
  executed in order.
\<close>

definition effects :: "nat \<Rightarrow> event list \<Rightarrow> state \<Rightarrow> state" where
  "effects k evs s =
     \<lparr>db = fold execute (statements evs) (db s), trace = trace s @ evs,
      requests = requests s + k\<rparr>"

text \<open>The pages whose scraping a sequence of effects starts, in order.\<close>

definition pages_scraped :: "event list \<Rightarrow> string list" where
  "pages_scraped evs =
     concat (map (\<lambda>e. case e of Print (ScrapingPage l) \<Rightarrow> [l] | _ \<Rightarrow> []) evs)"

text \<open>
  The effects of scraping the pages of attraction \<open>attr\<close>: the page line, the effects of
  the retrieval loops, the pause between pages, and the effects of the record loops. None
  of them writes to the attractions table, and the only review writes among them are
  those of reviews of \<open>attr\<close>.
\<close>

fun page_level :: "int \<Rightarrow> event \<Rightarrow> bool" where
  "page_level attr (Print (ScrapingPage l)) = True"
| "page_level attr e = (retrieval_event e \<or> page_write attr e)"

text \<open>
  The effects that do not concern attraction \<open>a\<close>: everything but a write of its metadata,
  of its scraped flag or of one of its reviews, and the line that announces the flag.
\<close>

fun foreign :: "int \<Rightarrow> event \<Rightarrow> bool" where
  "foreign a (Exec (InsertReview r)) = (attr_ID r \<noteq> a)"
| "foreign a (Exec (UpdateAttraction x y n i)) = (i \<noteq> a)"
| "foreign a (Exec (SetScraped b i)) = (i \<noteq> a)"
| "foreign a (Print (ScrapedSet i b)) = (i \<noteq> a)"
| "foreign a e = True"

text \<open>The rows the cursor returns for the template: id and url of the rows not yet scraped.\<close>

definition pending :: "database \<Rightarrow> (int \<times> string) list" where
  "pending d = map (\<lambda>r. (row_id r, row_url r)) (filter (\<lambda>r. \<not> scraped r) (attractions d))"

text \<open>The scraped flags of the rows with id \<open>a\<close>.\<close>

definition scraped_flags :: "int \<Rightarrow> database \<Rightarrow> bool list" where
  "scraped_flags a d = map scraped (filter (\<lambda>r. row_id r = a) (attractions d))"

text \<open>
  The effects \<open>mid\<close> of the loop body of \<^verbatim>\<open>do_scrape\<close> for the row \<open>(a, u)\<close>, when the body
  ends with \<open>r\<close>. Without a location, the details are printed and \<^verbatim>\<open>update_attraction\<close>
  raises. Otherwise the details are printed, the metadata are written, and the effects
  \<open>seg\<close> of scraping pages follow; when the body ends normally, \<open>seg\<close> has scraped exactly
  the page links of the attraction, in order, and the line about the flag and the write of
  the flag come last.
\<close>

definition segment ::
  "collaborators \<Rightarrow> scraper \<Rightarrow> int \<Rightarrow> string \<Rightarrow> error + unit \<Rightarrow> event list \<Rightarrow> bool" where
  "segment w self a u r mid =
     (let current_url = base_url self @ u;
          (loc, n, number_of_pages) = get_attr_details w current_url
      in case loc of
           None \<Rightarrow> mid = [Print (Details loc n number_of_pages)] \<and> r = Inl TypeError
         | Some (l0, l1) \<Rightarrow>
             (\<exists>seg. list_all (page_level a) seg \<and>
                (case r of
                   Inl e \<Rightarrow>
                     mid = Print (Details loc n number_of_pages)
                           # Exec (UpdateAttraction l1 l0 n a) # seg
                 | Inr v \<Rightarrow>
                     mid = Print (Details loc n number_of_pages)
                           # Exec (UpdateAttraction l1 l0 n a) # seg
                           @ [Print (ScrapedSet a True), Exec (SetScraped True a)]
                     \<and> pages_scraped seg
                       = generate_page_links (page_url w) (search_type self) current_url
                           number_of_pages)))"

section \<open>Example inputs\<close>

text \<open>
  A store with one attraction that is not yet scraped, three raw records (the second has
  no \<^verbatim>\<open>userProfile\<close>, the third no \<^verbatim>\<open>publishedDate\<close>), a page whose first \<^verbatim>\<open>reviews\<close> entry is
  the empty list, and a page with the third record between the two others.
\<close>

definition store0 :: database where
  "store0 =
     \<lparr>attractions =
        [\<lparr>row_id = 42, row_url = ''/Attraction-42'', attr_type = ''Sights & Landmarks'',
          geom = None, row_num_reviews = None, scraped = False\<rparr>],
      reviews = [], users = []\<rparr>"

definition state0 :: state where
  "state0 = \<lparr>db = store0, trace = [], requests = 0\<rparr>"

definition record1 :: json where
  "record1 =
     JObj [(''id'', JInt 1001), (''title'', JStr ''Worth the climb''), (''rating'', JInt 5),
           (''text'', JStr ''Go early.''), (''publishedDate'', JStr ''2020-02-01''),
           (''userProfile'',
              JObj [(''route'', JObj [(''url'', JStr ''/Profile/ada'')]),
                    (''hometown'', JObj [(''location'', JStr ''Bonn'')]),
                    (''contributionCounts'',
                       JObj [(''sumAllUgc'', JInt 12), (''helpfulVote'', JInt 3)])])]"

definition record2 :: json where
  "record2 =
     JObj [(''id'', JInt 1002), (''title'', JStr ''Crowded''), (''rating'', JInt 3),
           (''text'', JStr ''Long queue.''), (''publishedDate'', JStr ''2020-02-03'')]"



definition page0 :: json where
  "page0 =
     JObj [(''pageManifest'', JObj []),
           (''a'', JObj [(''reviews'', JArr [])]),
           (''b'', JArr [JObj [(''reviews'', JArr [record1, record2])]])]"


definition page_url0 :: string where
  "page_url0 = ''https://www.tripadvisor.com/Attraction-42''"


definition sparse_network :: network where
  "sparse_network k url =
     (if k = 0 then Captured (Some (JObj [(''pageManifest'', JObj [])]))
      else Captured (Some page0))"

definition steady_network :: network where
  "steady_network k url = Captured (Some page0)"




text \<open>A URL template, and a scraper configured with two categories.\<close>

definition page_template :: "string \<Rightarrow> string \<Rightarrow> nat \<Rightarrow> string" where
  "page_template st url i = url @ ''#'' @ st @ ''-'' @ replicate i (CHR ''+'')"

definition filtering_scraper :: scraper where
  "filtering_scraper =
     \<lparr>base_url = ''https://www.tripadvisor.com'', search_type = ''reviews'',
      attr_types = TypesTuple [''Sights & Landmarks'', ''Museums'']\<rparr>"

text \<open>The state after \<open>page0\<close> has been scraped once from \<open>state0\<close>.\<close>

definition state1 :: state where
  "state1 =
     after_events (candidates_events page_url0 42 0 (traverse page0))
       (requested 1 [Print (ScrapingPage page_url0), Get page_url0] state0)"

text \<open>
  The scenario of the specification: the scraper as \<^verbatim>\<open>main\<close> builds it, and a detail
  extractor that returns location (1, 2), 10 reviews and 2 pages.
\<close>

definition scraper0 :: scraper where
  "scraper0 =
     \<lparr>base_url = ''https://www.tripadvisor.com'', search_type = ''reviews'',
      attr_types = TypesStr ''all''\<rparr>"

definition world0 :: collaborators where
  "world0 =
     \<lparr>http = steady_network, get_attr_details = (\<lambda>url. (Some (1, 2), 10, 2)),
      page_url = page_template\<rparr>"

text \<open>
  What the run of the scenario does: the details and the metadata write, the two pages
  with a pause after each, and the flag.
\<close>

definition page_events0 :: "nat \<Rightarrow> event list" where
  "page_events0 i =
     [Print (ScrapingPage (page_template ''reviews'' page_url0 i)),
      Get (page_template ''reviews'' page_url0 i)]
     @ candidates_events (page_template ''reviews'' page_url0 i) 42 (int i) (traverse page0)"

definition run_events0 :: "event list" where
  "run_events0 =
     [Print (Details (Some (1, 2)) 10 2), Exec (UpdateAttraction 2 1 10 42)]
     @ page_events0 0 @ [Sleep PagePause] @ page_events0 1 @ [Sleep PagePause]
     @ [Print (ScrapedSet 42 True), Exec (SetScraped True 42)]"

definition final0 :: state where
  "final0 = effects 2 run_events0 state0"

section \<open>The tree search\<close>

lemma traverse_eq_tree_search:
  "traverse v = tree_search v"
  "traverse_items kvs =
     concat (map (\<lambda>(k, v). if k = collection_key then [v] else tree_search v) kvs)"
  "traverse_elems vs = concat (map tree_search vs)"
  by (induction v and kvs and vs rule: traverse_traverse_items_traverse_elems.induct)
     (simp_all add: collection_key_def)

lemma traverse_without_key:
  "\<not> key_occurs v \<Longrightarrow> traverse v = []"
  "\<forall>(k, v) \<in> set kvs. k \<noteq> collection_key \<and> \<not> key_occurs v \<Longrightarrow> traverse_items kvs = []"
  "\<forall>v \<in> set vs. \<not> key_occurs v \<Longrightarrow> traverse_elems vs = []"
  by (induction v and kvs and vs rule: traverse_traverse_items_traverse_elems.induct)
     (auto simp add: collection_key_def)

text \<open>
  C3. For every decoded value, \<open>traverse\<close> yields what the depth-first tree search of the
  specification yields, in the same order: the values of the object entries whose key is
  \<^verbatim>\<open>"reviews"\<close>, each as it is and without a descent into it, with a descent into the other
  entries and into every array element. A value in which the key occurs nowhere yields
  nothing, and the example of the specification yields \<^verbatim>\<open>[1,2]\<close> and then \<^verbatim>\<open>[]\<close>.
\<close>

theorem traverse_is_tree_search:
  "traverse v = tree_search v
   \<and> (\<not> key_occurs v \<longrightarrow> traverse v = [])
   \<and> traverse (JObj [(''reviews'', x)]) = [x]
   \<and> traverse (JObj [(''a'', JObj [(''reviews'', JArr [JInt 1, JInt 2])]),
                     (''b'', JObj [(''reviews'', JArr [])])])
       = [JArr [JInt 1, JInt 2], JArr []]"
proof -
  have "traverse v = tree_search v"
    by (rule traverse_eq_tree_search(1))
  moreover have "\<not> key_occurs v \<longrightarrow> traverse v = []"
    by (simp add: traverse_without_key(1))
  moreover have "traverse (JObj [(''reviews'', x)]) = [x]"
    by simp
  moreover have "traverse (JObj [(''a'', JObj [(''reviews'', JArr [JInt 1, JInt 2])]),
                     (''b'', JObj [(''reviews'', JArr [])])])
       = [JArr [JInt 1, JInt 2], JArr []]"
    by simp
  ultimately show ?thesis by blast
qed

theorem traverse_is_tree_search_witness:
  "\<not> key_occurs (JObj [(''a'', JArr [JInt 1, JStr ''reviews''])])
   \<and> traverse (JObj [(''a'', JArr [JInt 1, JStr ''reviews''])]) = []
   \<and> traverse (JObj [(''reviews'', JObj [(''reviews'', JArr [])])])
       = [JObj [(''reviews'', JArr [])]]"
  using traverse_is_tree_search [of "JObj [(''a'', JArr [JInt 1, JStr ''reviews''])]"
      "JObj [(''reviews'', JArr [])]"]
  by (simp add: collection_key_def)

section \<open>The record loops as effects replayed on the state\<close>

text \<open>
  Nothing between line 245 and line 293 reads the state: what the loops print and write is
  a function of the page data, and the state they end in is the state they started from
  after those effects.
\<close>

lemma statements_simps [simp]:
  "statements [] = []"
  "statements (Exec q # evs) = q # statements evs"
  "statements (Print m # evs) = statements evs"
  "statements (Sleep p # evs) = statements evs"
  "statements (Get u # evs) = statements evs"
  "statements (xs @ ys) = statements xs @ statements ys"
  by (simp_all add: statements_def)

lemma after_events_Nil [simp]: "after_events [] s = s"
  by (simp add: after_events_def)

lemma after_events_append [simp]:
  "after_events ys (after_events xs s) = after_events (xs @ ys) s"
  by (simp add: after_events_def)

lemma after_events_sel [simp]:
  "trace (after_events evs s) = trace s @ evs"
  "db (after_events evs s) = fold execute (statements evs) (db s)"
  "requests (after_events evs s) = requests s"
  by (simp_all add: after_events_def)

lemma emit_Print: "emit (Print m) s = after_events [Print m] s"
  by (simp add: emit_def after_events_def)

lemma update_record_after: "update_record q s = after_events [Exec q] s"
  by (simp add: update_record_def emit_def after_events_def)

lemma print_missing_info_after:
  "print_missing_info t a p r u s = after_events [missing_report t a p r u] s"
  by (simp add: print_missing_info_def emit_Print missing_report_def)

lemma update_user_after:
  "update_user u s = after_events (Print (UpdatingUser (profile u)) #
      (if profile u \<noteq> JNull then [Exec (InsertUser u)] else [Print EmptyUserInformation])) s"
  by (simp add: update_user_def Let_def emit_Print update_record_after)

lemma update_review_after: "update_review r s = after_events [Exec (InsertReview r)] s"
  by (simp add: update_review_def update_record_after)

lemma required_fields_Inr:
  "required_fields attr r = Inr v \<Longrightarrow> v = (mapped_review attr r)\<lparr>user_profile := JNull\<rparr>"
  by (auto simp add: required_fields_def mapped_review_def optional_def Review_def
      split: sum.splits)

lemma scrape_record_Inl:
  "required_fields attr r = Inl e \<Longrightarrow> scrape_record url attr index ridx r s = (Inl e, s)"
  by (simp add: scrape_record_def)

lemma sum_case_subscripts:
  "(case subscripts r p of Inl e \<Rightarrow> g | Inr v \<Rightarrow> f v)
   = (if absent r p then g else f (optional r p))"
  by (simp add: absent_def optional_def split: sum.splits)

lemma mapped_user_sel:
  "profile (mapped_user r) = optional r [''userProfile'', ''route'', ''url'']"
  "location (mapped_user r) = (if absent r [''userProfile'', ''hometown''] then None
      else Some (optional r [''userProfile'', ''hometown'']))"
  "contributions (mapped_user r) = optional r [''userProfile'', ''contributionCounts'', ''sumAllUgc'']"
  "helpful_votes (mapped_user r) = optional r [''userProfile'', ''contributionCounts'', ''helpfulVote'']"
  by (simp_all add: mapped_user_def absent_def optional_def split: sum.splits)

lemma absent_optional: "absent r p \<Longrightarrow> optional r p = JNull"
  by (simp add: absent_def optional_def split: sum.splits)

lemma scrape_record_Inr:
  assumes "required_fields attr r = Inr v"
  shows "scrape_record url attr index ridx r s
         = (Inr (), after_events (record_events url attr index ridx r) s)"
proof -
  have v: "v = (mapped_review attr r)\<lparr>user_profile := JNull\<rparr>"
    using assms by (rule required_fields_Inr)
  let ?p1 = "[''userProfile'', ''route'', ''url'']"
  let ?p2 = "[''userProfile'', ''hometown'']"
  let ?p3 = "[''userProfile'', ''contributionCounts'', ''sumAllUgc'']"
  let ?p4 = "[''userProfile'', ''contributionCounts'', ''helpfulVote'']"
  have u: "mapped_user r = \<lparr>profile = optional r ?p1,
      location = (if absent r ?p2 then None else Some (optional r ?p2)),
      contributions = optional r ?p3, helpful_votes = optional r ?p4\<rparr>"
    by (simp add: mapped_user_sel)
  have rv: "mapped_review attr r = v\<lparr>user_profile := optional r ?p1\<rparr>"
    by (simp add: v mapped_review_def)
  have vv: "v\<lparr>user_profile := JNull\<rparr> = v"
    by (subst (2) v, subst v, simp)
  show ?thesis
    unfolding scrape_record_def assms sum.case sum_case_subscripts
    by (cases "absent r ?p1"; cases "absent r ?p2"; cases "absent r ?p3"; cases "absent r ?p4")
       (simp_all add: record_events_def optional_fields_def u rv vv absent_optional User_def
         print_missing_info_after update_user_after update_review_after)
qed

lemma scrape_records_eq:
  "scrape_records url attr index ridx rs s
   = (records_outcome attr rs, after_events (records_events url attr index ridx rs) s)"
proof (induction rs arbitrary: ridx s)
  case Nil
  then show ?case by simp
next
  case (Cons r rs)
  show ?case
  proof (cases "required_fields attr r")
    case (Inl e)
    then show ?thesis by (simp add: scrape_record_Inl)
  next
    case (Inr v)
    then show ?thesis by (simp add: scrape_record_Inr Cons.IH)
  qed
qed

lemma scrape_candidate_eq:
  "scrape_candidate url attr index revs s
   = (candidate_outcome attr revs, after_events (candidate_events url attr index revs) s)"
  by (simp add: scrape_candidate_def candidate_outcome_def candidate_events_def
      scrape_records_eq print_missing_info_after split: sum.splits)

lemma scrape_candidates_eq:
  "scrape_candidates url attr index ls s
   = (candidates_outcome attr ls, after_events (candidates_events url attr index ls) s)"
proof (induction ls arbitrary: s)
  case Nil
  then show ?case by simp
next
  case (Cons l ls)
  then show ?case
    by (cases "candidate_outcome attr l") (simp_all add: scrape_candidate_eq)
qed

section \<open>The retrieval loops\<close>

lemma fetch_loop_caught:
  "caught (net (requests s) url) \<Longrightarrow>
   fetch_loop net url s
   = fetch_loop net url (requested 1 [Get url, Print (Reloading url), Sleep RetryPause] s)"
  by (subst fetch_loop.simps, cases "net (requests s) url")
     (simp_all add: fetch_def emit_def requested_def)

lemma fetch_loop_Captured:
  "net (requests s) url = Captured c \<Longrightarrow>
   fetch_loop net url s = Some (c, requested 1 [Get url] s)"
  by (subst fetch_loop.simps) (simp add: fetch_def emit_def requested_def)

lemma requested_requested [simp]:
  "requested k evs (requested j evs' s) = requested (j + k) (evs' @ evs) s"
  by (simp add: requested_def)

lemma requested_sel [simp]:
  "requests (requested k evs s) = requests s + k"
  "trace (requested k evs s) = trace s @ evs"
  "db (requested k evs s) = db s"
  by (simp_all add: requested_def)

lemma fetch_loop_retries:
  "\<forall>i<n. caught (net (requests s + i) url) \<Longrightarrow>
   net (requests s + n) url = Captured c \<Longrightarrow>
   fetch_loop net url s = Some (c, requested (Suc n) (reloads n url @ [Get url]) s)"
proof (induction n arbitrary: s)
  case 0
  then show ?case by (simp add: fetch_loop_Captured reloads_def)
next
  case (Suc n)
  let ?s = "requested 1 [Get url, Print (Reloading url), Sleep RetryPause] s"
  have "caught (net (requests s + 0) url)"
    using Suc.prems(1) by blast
  then have c0: "caught (net (requests s) url)"
    by simp
  have "\<forall>i<n. caught (net (requests ?s + i) url)"
    using Suc.prems(1) by (auto simp add: )
  moreover have "net (requests ?s + n) url = Captured c"
    using Suc.prems(2) by simp
  ultimately have "fetch_loop net url ?s
      = Some (c, requested (Suc n) (reloads n url @ [Get url]) ?s)"
    by (rule Suc.IH)
  then show ?case
    by (simp add: fetch_loop_caught [where net = net and s = s and url = url, OF c0]
        reloads_def)
qed




lemma requested_0 [simp]: "requested 0 [] s = s"
  by (simp add: requested_def)

lemma fetch_requested: "fetch net url s = (net (requests s) url, requested 1 [Get url] s)"
  by (simp add: fetch_def emit_def requested_def)

lemma emit_requested: "emit e s = requested 0 [e] s"
  by (simp add: emit_def requested_def)

lemma fetch_loop_extends:
  "fetch_loop net url s = Some y \<Longrightarrow>
   \<exists>k evs. snd y = requested k evs s \<and> list_all retrieval_event evs"
proof (induct rule: fetch_loop.raw_induct [rotated 1, consumes 1])
  case (1 f net url s y)
  obtain c s' where y: "y = (c, s')" by (cases y)
  have "\<exists>k evs. s' = requested k evs s \<and> list_all retrieval_event evs"
  proof (cases "net (requests s) url")
    case (Captured c')
    with 1(2) y have "s' = requested 1 [Get url] s"
      by (simp add: fetch_requested)
    moreover have "list_all retrieval_event [Get url]" by simp
    ultimately show ?thesis by blast
  next
    case TransportFailure
    let ?s = "requested 1 [Get url, Print (Reloading url), Sleep RetryPause] s"
    from TransportFailure 1(2) have "f net url ?s = Some y"
      by (simp add: fetch_requested emit_requested)
    from 1(1) [OF this] y obtain k evs where
      "s' = requested k evs ?s" "list_all retrieval_event evs" by auto
    then have "s' = requested (1 + k) ([Get url, Print (Reloading url), Sleep RetryPause] @ evs) s
        \<and> list_all retrieval_event ([Get url, Print (Reloading url), Sleep RetryPause] @ evs)"
      by simp
    then show ?thesis by blast
  next
    case MarkerAbsent
    let ?s = "requested 1 [Get url, Print (Reloading url), Sleep RetryPause] s"
    from MarkerAbsent 1(2) have "f net url ?s = Some y"
      by (simp add: fetch_requested emit_requested)
    from 1(1) [OF this] y obtain k evs where
      "s' = requested k evs ?s" "list_all retrieval_event evs" by auto
    then have "s' = requested (1 + k) ([Get url, Print (Reloading url), Sleep RetryPause] @ evs) s
        \<and> list_all retrieval_event ([Get url, Print (Reloading url), Sleep RetryPause] @ evs)"
      by simp
    then show ?thesis by blast
  qed
then show ?case by (simp add: y)
qed

lemma next_or_exhausted_iff [simp]: "next_or_exhausted xs = Exhausted \<longleftrightarrow> xs = []"
  by (cases xs) simp_all

lemma retry_loop_proceeds:
  "traverse data \<noteq> [] \<Longrightarrow> retry_loop net url index data s = Some (Inr data, s)"
  by (subst retry_loop.simps) simp

lemma retry_loop_step:
  "traverse data = [] \<Longrightarrow>
   retry_loop net url index data s =
     (let s1 = requested 1 [Print (WeirdStuff index), Get url] s
      in case net (requests s) url of
           TransportFailure \<Rightarrow> Some (Inl TransportError, s1)
         | MarkerAbsent \<Rightarrow> Some (Inl AttributeError, s1)
         | Captured None \<Rightarrow> Some (Inl JSONDecodeError, s1)
         | Captured (Some d) \<Rightarrow> retry_loop net url index d s1)"
  by (subst retry_loop.simps)
     (simp add: fetch_requested emit_requested json_loads_def
        split: response.splits option.splits)

lemma retry_loop_retries:
  "traverse data = [] \<Longrightarrow>
   \<forall>j<m. empty_tree (net (requests s + j) url) \<Longrightarrow>
   net (requests s + m) url = Captured (Some d) \<Longrightarrow> traverse d \<noteq> [] \<Longrightarrow>
   retry_loop net url index data s
   = Some (Inr d, requested (Suc m) (refetches (Suc m) url index) s)"
proof (induction m arbitrary: data s)
  case 0
  then show ?case
    by (simp add: retry_loop_step retry_loop_proceeds refetches_def)
next
  case (Suc m)
  let ?s = "requested 1 [Print (WeirdStuff index), Get url] s"
  have "empty_tree (net (requests s + 0) url)"
    using Suc.prems(2) by blast
  then obtain d0 where d0: "net (requests s) url = Captured (Some d0)" "traverse d0 = []"
    by (cases "net (requests s) url" rule: empty_tree.cases) simp_all
  have "\<forall>j<m. empty_tree (net (requests ?s + j) url)"
    using Suc.prems(2) by auto
  moreover have "net (requests ?s + m) url = Captured (Some d)"
    using Suc.prems(3) by simp
  ultimately have "retry_loop net url index d0 ?s
      = Some (Inr d, requested (Suc m) (refetches (Suc m) url index) ?s)"
    using d0(2) Suc.prems(4) by (intro Suc.IH)
  then show ?case
    using Suc.prems(1) d0 by (simp add: retry_loop_step refetches_def)
qed

lemma retry_loop_extends:
  "retry_loop net url index data s = Some y \<Longrightarrow>
   \<exists>k evs. snd y = requested k evs s \<and> list_all retrieval_event evs
     \<and> (traverse data = [] \<longrightarrow> take 2 evs = [Print (WeirdStuff index), Get url])
     \<and> (traverse data \<noteq> [] \<longrightarrow> evs = [])"
proof (induct rule: retry_loop.raw_induct [rotated 1, consumes 1])
  case (1 f net url index data s y)
  obtain r s' where y: "y = (r, s')" by (cases y)
  have "\<exists>k evs. s' = requested k evs s \<and> list_all retrieval_event evs
     \<and> (traverse data = [] \<longrightarrow> take 2 evs = [Print (WeirdStuff index), Get url])
     \<and> (traverse data \<noteq> [] \<longrightarrow> evs = [])"
  proof (cases "traverse data = []")
    case False
    with 1(2) y have "s' = requested 0 [] s" by simp
    moreover have "list_all retrieval_event []" by simp
    ultimately show ?thesis using False by blast
  next
    case True
    let ?s = "requested 1 [Print (WeirdStuff index), Get url] s"
    let ?evs = "[Print (WeirdStuff index), Get url]"
    show ?thesis
    proof (cases "\<exists>d. net (requests s) url = Captured (Some d)")
      case False
      with True 1(2) y have "s' = ?s"
        by (auto simp add: fetch_requested emit_requested json_loads_def
            split: response.splits option.splits)
      moreover have "list_all retrieval_event ?evs \<and> take 2 ?evs = ?evs" by simp
      ultimately show ?thesis using True by blast
    next
      case True
      then obtain d where d: "net (requests s) url = Captured (Some d)" by blast
      with \<open>traverse data = []\<close> 1(2) have "f net url index d ?s = Some y"
        by (simp add: fetch_requested emit_requested json_loads_def)
      from 1(1) [OF this] y obtain k evs where
        "s' = requested k evs ?s" "list_all retrieval_event evs" by auto
      then have "s' = requested (1 + k) (?evs @ evs) s
          \<and> list_all retrieval_event (?evs @ evs) \<and> take 2 (?evs @ evs) = ?evs"
        by simp
      with \<open>traverse data = []\<close> show ?thesis by blast
    qed
  qed
then show ?case by (simp add: y)
qed

lemma new_events_requested [simp]: "new_events s (requested k evs s) = evs"
  by (simp add: new_events_def)

lemma new_events_after [simp]: "new_events s (after_events evs s) = evs"
  by (simp add: new_events_def)

lemma retrieve_retries:
  assumes "\<forall>i<n. caught (net (requests s + i) url)"
    and "\<forall>j<m. empty_tree (net (requests s + n + j) url)"
    and "net (requests s + n + m) url = Captured (Some data)"
    and "traverse data \<noteq> []"
  shows "retrieve net url index s
         = Some (Inr data, requested (n + m + 1)
                             (reloads n url @ [Get url] @ refetches m url index) s)"
proof (cases m)
  case 0
  with assms(3) have "net (requests s + n) url = Captured (Some data)" by simp
  from fetch_loop_retries [where net = net and s = s and url = url and n = n, OF assms(1) this]
  show ?thesis
    using assms(4) 0
    by (simp add: retrieve_def json_loads_def retry_loop_proceeds refetches_def)
next
  case (Suc k)
  let ?s = "requested (Suc n) (reloads n url @ [Get url]) s"
  have "empty_tree (net (requests s + n + 0) url)"
    using assms(2) Suc by blast
  then obtain d0 where d0: "net (requests s + n) url = Captured (Some d0)" "traverse d0 = []"
    by (cases "net (requests s + n) url" rule: empty_tree.cases) simp_all
  have f: "fetch_loop net url s = Some (Some d0, ?s)"
    by (rule fetch_loop_retries [where net = net and s = s and url = url and n = n,
          OF assms(1) d0(1)])
  have "\<forall>j<k. empty_tree (net (requests ?s + j) url)"
    using assms(2) Suc by auto
  moreover have "net (requests ?s + k) url = Captured (Some data)"
    using assms(3) Suc by simp
  ultimately have "retry_loop net url index d0 ?s
      = Some (Inr data, requested (Suc k) (refetches (Suc k) url index) ?s)"
    using d0(2) assms(4) by (intro retry_loop_retries)
  then show ?thesis
    using Suc by (simp add: retrieve_def f json_loads_def)
qed



lemma scrape_page_requested:
  "scrape_page net url attr index s =
     (case retrieve net url index (requested 0 [Print (ScrapingPage url)] s) of
        None \<Rightarrow> None
      | Some (Inl e, s2) \<Rightarrow> Some (Inl e, s2)
      | Some (Inr data, s2) \<Rightarrow> Some (scrape_candidates url attr index (traverse data) s2))"
  by (simp add: scrape_page_def emit_requested)

section \<open>Failures while a page is retrieved\<close>


lemma traverse_page0:
  "traverse page0 = [JArr [], JArr [record1, record2]]"
  by (simp add: page0_def)



section \<open>When the page is requested again\<close>

lemma record_events_page_write:
  "list_all (page_write attr) (record_events url attr index ridx r)"
  by (simp add: record_events_def optional_fields_def missing_report_def mapped_review_def)

lemma records_events_page_write:
  "list_all (page_write attr) (records_events url attr index ridx rs)"
  by (induction rs arbitrary: ridx) (simp_all add: record_events_page_write split: sum.splits)

lemma candidate_events_page_write:
  "list_all (page_write attr) (candidate_events url attr index revs)"
  by (simp add: candidate_events_def records_events_page_write missing_report_def
      split: sum.splits)

lemma candidates_events_page_write:
  "list_all (page_write attr) (candidates_events url attr index ls)"
  by (induction ls) (simp_all add: candidate_events_page_write split: sum.splits)

lemma page_write_not_retrieval:
  "list_all (page_write attr) evs \<Longrightarrow> Print (WeirdStuff i) \<notin> set evs \<and> Get u \<notin> set evs"
  by (induction evs) auto

lemma new_events_extended:
  "trace s' = trace s @ evs \<Longrightarrow> new_events s s' = evs"
  by (simp add: new_events_def)

lemma take_2_mem:
  "take 2 evs = [a, b] \<Longrightarrow> a \<in> set evs \<and> b \<in> set evs"
  by (metis in_set_takeD list.set_intros(1) list.set_intros(2))

text \<open>
  C5. Once the first loop has captured data, \<open>scrape_page\<close> enters the second loop's body
  exactly when the tree search over that data yields nothing: if the search yields at
  least one value, even an empty list first, \<open>scrape_page\<close> goes straight on to the record
  loops from the state the first loop left, and a run that returns has printed the retry
  line and requested the page again exactly when the search yielded nothing.
\<close>

theorem retry_iff_search_exhausted:
  "fetch_loop net url (emit (Print (ScrapingPage url)) s) = Some (Some data0, s1) \<longrightarrow>
     (traverse data0 \<noteq> [] \<longrightarrow>
        scrape_page net url attr index s
        = Some (scrape_candidates url attr index (traverse data0) s1))
     \<and> (\<forall>res s'. scrape_page net url attr index s = Some (res, s') \<longrightarrow>
          (Print (WeirdStuff index) \<in> set (new_events s1 s') \<longleftrightarrow> traverse data0 = [])
          \<and> (Get url \<in> set (new_events s1 s') \<longleftrightarrow> traverse data0 = []))"
proof (intro impI conjI allI)
  assume f: "fetch_loop net url (emit (Print (ScrapingPage url)) s) = Some (Some data0, s1)"
  have page: "scrape_page net url attr index s =
      (case retry_loop net url index data0 s1 of
         None \<Rightarrow> None
       | Some (Inl e, s2) \<Rightarrow> Some (Inl e, s2)
       | Some (Inr data, s2) \<Rightarrow> Some (scrape_candidates url attr index (traverse data) s2))"
    by (simp add: scrape_page_def retrieve_def f json_loads_def)
  {
    assume "traverse data0 \<noteq> []"
    then show "scrape_page net url attr index s
        = Some (scrape_candidates url attr index (traverse data0) s1)"
      by (simp add: page retry_loop_proceeds)
  }
  fix res s'
  assume run: "scrape_page net url attr index s = Some (res, s')"
  have "Print (WeirdStuff index) \<in> set (new_events s1 s') \<and> Get url \<in> set (new_events s1 s')"
    if e: "traverse data0 = []"
  proof -
    from run page obtain r2 s2 where
      r: "retry_loop net url index data0 s1 = Some (r2, s2)"
      by (cases "retry_loop net url index data0 s1") auto
    have s': "\<exists>evs. s' = after_events evs s2"
    proof (cases r2)
      case (Inl e)
      with run page r have "s' = after_events [] s2" by simp
      then show ?thesis ..
    next
      case (Inr data)
      with run page r show ?thesis by (auto simp add: scrape_candidates_eq)
    qed
    from retry_loop_extends [OF r] e obtain k evs where
      s2: "s2 = requested k evs s1" and t: "take 2 evs = [Print (WeirdStuff index), Get url]"
      by auto
    from s' s2 obtain evs' where "trace s' = trace s1 @ evs @ evs'"
      by auto
    then have "new_events s1 s' = evs @ evs'"
      by (simp add: new_events_def)
    with take_2_mem [OF t] show ?thesis by simp
  qed
  moreover have "Print (WeirdStuff index) \<notin> set (new_events s1 s')
      \<and> Get url \<notin> set (new_events s1 s')"
    if ne: "traverse data0 \<noteq> []"
  proof -
    from run ne have "s' = after_events (candidates_events url attr index (traverse data0)) s1"
      by (simp add: page retry_loop_proceeds scrape_candidates_eq)
    then have "new_events s1 s' = candidates_events url attr index (traverse data0)"
      by simp
    then show ?thesis
      using page_write_not_retrieval [OF candidates_events_page_write] by simp
  qed
  ultimately show
    "Print (WeirdStuff index) \<in> set (new_events s1 s') \<longleftrightarrow> traverse data0 = []"
    "Get url \<in> set (new_events s1 s') \<longleftrightarrow> traverse data0 = []"
    by blast+
qed


lemma state0_sel [simp]:
  "requests state0 = 0" "trace state0 = []" "db state0 = store0"
  by (simp_all add: state0_def)

theorem retry_iff_search_exhausted_witness:
  "fetch_loop steady_network page_url0 (emit (Print (ScrapingPage page_url0)) state0)
     = Some (Some page0, requested 1 [Print (ScrapingPage page_url0), Get page_url0] state0)
   \<and> traverse page0 = [JArr [], JArr [record1, record2]]
   \<and> scrape_page steady_network page_url0 42 0 state0
     = Some (scrape_candidates page_url0 42 0 [JArr [], JArr [record1, record2]]
               (requested 1 [Print (ScrapingPage page_url0), Get page_url0] state0))
   \<and> fetch_loop sparse_network page_url0 (emit (Print (ScrapingPage page_url0)) state0)
     = Some (Some (JObj [(''pageManifest'', JObj [])]),
             requested 1 [Print (ScrapingPage page_url0), Get page_url0] state0)
   \<and> traverse (JObj [(''pageManifest'', JObj [])]) = []
   \<and> scrape_page sparse_network page_url0 42 0 state0
     = Some (scrape_candidates page_url0 42 0 [JArr [], JArr [record1, record2]]
               (requested 2 [Print (ScrapingPage page_url0), Get page_url0,
                             Print (WeirdStuff 0), Get page_url0] state0))
   \<and> Print (WeirdStuff 0)
       \<in> set (new_events (requested 1 [Print (ScrapingPage page_url0), Get page_url0] state0)
                (snd (scrape_candidates page_url0 42 0 [JArr [], JArr [record1, record2]]
                  (requested 2 [Print (ScrapingPage page_url0), Get page_url0,
                                Print (WeirdStuff 0), Get page_url0] state0))))"
proof -
  let ?s1 = "requested 1 [Print (ScrapingPage page_url0), Get page_url0] state0"
  let ?s2 = "requested 2 [Print (ScrapingPage page_url0), Get page_url0,
                          Print (WeirdStuff 0), Get page_url0] state0"
  let ?d = "JObj [(''pageManifest'', JObj [])]"
  have f1: "fetch_loop steady_network page_url0 (emit (Print (ScrapingPage page_url0)) state0)
      = Some (Some page0, ?s1)"
    by (simp add: fetch_loop_Captured steady_network_def emit_requested)
  have f2: "fetch_loop sparse_network page_url0 (emit (Print (ScrapingPage page_url0)) state0)
      = Some (Some ?d, ?s1)"
    by (simp add: fetch_loop_Captured sparse_network_def emit_requested state0_def)
  have t: "traverse ?d = []" by simp
  have r2: "scrape_page sparse_network page_url0 42 0 state0
      = Some (scrape_candidates page_url0 42 0 [JArr [], JArr [record1, record2]] ?s2)"
    using retrieve_retries [where net = sparse_network and s = "requested 0 [Print (ScrapingPage page_url0)] state0"
        and url = page_url0 and n = 0 and m = "Suc 0" and data = page0 and index = 0]
    by (simp add: scrape_page_requested sparse_network_def traverse_page0
        reloads_def refetches_def numeral_2_eq_2 del: scrape_candidates.simps)
  note c1 = retry_iff_search_exhausted [where net = steady_network and url = page_url0
      and s = state0 and ?data0.0 = page0 and ?s1.0 = "?s1" and attr = 42 and index = 0]
  note c2 = retry_iff_search_exhausted [where net = sparse_network and url = page_url0
      and s = state0 and ?data0.0 = "?d" and ?s1.0 = "?s1" and attr = 42 and index = 0]
  from c1 f1 have r1: "scrape_page steady_network page_url0 42 0 state0
      = Some (scrape_candidates page_url0 42 0 [JArr [], JArr [record1, record2]] ?s1)"
    by (simp add: traverse_page0)
  obtain res s' where p: "scrape_candidates page_url0 42 0 [JArr [], JArr [record1, record2]] ?s2
      = (res, s')"
    by (cases "scrape_candidates page_url0 42 0 [JArr [], JArr [record1, record2]] ?s2")
  from r2 p have run: "scrape_page sparse_network page_url0 42 0 state0 = Some (res, s')"
    by simp
  from c2 f2 have "\<forall>res s'. scrape_page sparse_network page_url0 42 0 state0 = Some (res, s') \<longrightarrow>
      (Print (WeirdStuff 0) \<in> set (new_events ?s1 s') \<longleftrightarrow> traverse ?d = [])"
    by blast
  with run t have "Print (WeirdStuff 0) \<in> set (new_events ?s1 s')"
    by blast
  with p have w: "Print (WeirdStuff 0) \<in> set (new_events ?s1
      (snd (scrape_candidates page_url0 42 0 [JArr [], JArr [record1, record2]] ?s2)))"
    by simp
  from f1 traverse_page0 r1 f2 t r2 w show ?thesis by blast
qed

section \<open>The page links\<close>

text \<open>
  C9. Given a page count \<open>n\<close>, \<open>generate_page_links\<close> produces exactly \<open>n\<close> URLs, the
  \<open>i\<close>-th of them the template applied to the page index \<open>i\<close>, for the indices 0 to
  \<open>n - 1\<close> in ascending order; the count 0 gives the empty sequence and the count 3 the
  indices 0, 1, 2. The result is a function of the arguments alone.
\<close>

theorem generate_page_links_indices:
  "length (generate_page_links template st url n) = nat n
   \<and> (\<forall>i<nat n. generate_page_links template st url n ! i = template st url i)
   \<and> generate_page_links template st url 0 = []
   \<and> generate_page_links template st url 3
       = [template st url 0, template st url 1, template st url 2]"
proof -
  have "[0..<nat (3::int)] = [0, 1, 2]"
    by (simp add: upt_rec)
  then show ?thesis
    by (simp add: generate_page_links_def)
qed

theorem generate_page_links_indices_witness:
  "(1::nat) < nat 2
   \<and> generate_page_links page_template ''reviews'' page_url0 2 ! 1
       = page_template ''reviews'' page_url0 1"
  using generate_page_links_indices [of page_template "''reviews''" page_url0 2]
  by simp

section \<open>The query for the attractions\<close>

lemma filtered_query_where_clauses:
  "where_clauses
     (''SELECT id, url FROM attractions WHERE scraped = False WHERE attr_type IN %s AND scraped = False ORDER BY ''
        @ [CHR 0x22] @ ''id'' @ [CHR 0x22] @ '' DESC'') = 2"
  by (simp add: where_clauses_def)

text \<open>
  C8. With \<^verbatim>\<open>attr_types = "all"\<close> the query is the template, which has one WHERE clause and
  selects the rows not yet scraped. With a tuple of two categories the text sent is the
  template followed by a second WHERE clause; the database rejects it, and \<open>do_scrape\<close>
  ends with the error before it has fetched a row.
\<close>

theorem read_attractions_filtered_query:
  "read_attractions (attr_types filtering_scraper)
   = Some (''SELECT id, url FROM attractions WHERE scraped = False WHERE attr_type IN %s AND scraped = False ORDER BY ''
             @ [CHR 0x22] @ ''id'' @ [CHR 0x22] @ '' DESC'',
           Some (TypesTuple [''Sights & Landmarks'', ''Museums'']))
   \<and> where_clauses
         (''SELECT id, url FROM attractions WHERE scraped = False WHERE attr_type IN %s AND scraped = False ORDER BY ''
            @ [CHR 0x22] @ ''id'' @ [CHR 0x22] @ '' DESC'') = 2
   \<and> do_scrape w filtering_scraper state0 = Some (Inl ProgrammingError, state0)
   \<and> read_attractions (TypesStr ''all'') = Some (query_template, None)
   \<and> where_clauses query_template = 1
   \<and> cursor_execute store0 query_template = Inr [(42, ''/Attraction-42'')]"
proof -
  have q: "read_attractions (attr_types filtering_scraper)
   = Some (''SELECT id, url FROM attractions WHERE scraped = False WHERE attr_type IN %s AND scraped = False ORDER BY ''
             @ [CHR 0x22] @ ''id'' @ [CHR 0x22] @ '' DESC'',
           Some (TypesTuple [''Sights & Landmarks'', ''Museums'']))"
    by (simp add: read_attractions_def filtering_scraper_def query_template_def)
  have "do_scrape w filtering_scraper state0 = Some (Inl ProgrammingError, state0)"
    unfolding do_scrape_def q by (simp add: cursor_execute_def query_template_def)
  moreover have "read_attractions (TypesStr ''all'') = Some (query_template, None)"
    by (simp add: read_attractions_def)
  moreover have "where_clauses query_template = 1"
    by (simp add: where_clauses_def query_template_def)
  moreover have "cursor_execute store0 query_template = Inr [(42, ''/Attraction-42'')]"
    by (simp add: cursor_execute_def store0_def)
  ultimately show ?thesis
    using q filtered_query_where_clauses by blast
qed

section \<open>Well-formed pages\<close>

lemma review_writes_simps [simp]:
  "review_writes [] = []"
  "review_writes (Exec (InsertReview r) # evs) = r # review_writes evs"
  "review_writes (Exec (InsertUser u) # evs) = review_writes evs"
  "review_writes (Print m # evs) = review_writes evs"
  "review_writes (xs @ ys) = review_writes xs @ review_writes ys"
  by (simp_all add: review_writes_def)

lemma review_writes_reports [simp]:
  "review_writes (missing_report t a p r u # evs) = review_writes evs"
  by (simp add: missing_report_def)

lemma review_writes_concat:
  "review_writes (concat xss) = concat (map review_writes xss)"
  by (induction xss) simp_all

lemma subscript_JObj:
  "subscript (JObj kvs) k = (case map_of kvs k of None \<Rightarrow> Inl (KeyError k) | Some v \<Rightarrow> Inr v)"
  by simp

lemma has_required_fields:
  "has_required r \<Longrightarrow> \<exists>v. required_fields attr r = Inr v"
  by (cases r) (auto simp add: required_fields_def required_keys_def split: option.splits)


lemma review_writes_record_events [simp]:
  "review_writes (record_events url attr index ridx r) = [mapped_review attr r]"
  by (simp add: record_events_def optional_fields_def)

lemma records_well_formed:
  "list_all has_required rs \<Longrightarrow> records_outcome attr rs = Inr ()"
proof (induction rs)
  case Nil
  then show ?case by simp
next
  case (Cons r rs)
  from Cons.prems obtain v where "required_fields attr r = Inr v"
    using has_required_fields by auto
  with Cons show ?case by simp
qed



lemma review_writes_records_events:
  "list_all has_required rs \<Longrightarrow>
   review_writes (records_events url attr index ridx rs) = map (mapped_review attr) rs"
proof (induction rs arbitrary: ridx)
  case Nil
  then show ?case by simp
next
  case (Cons r rs)
  from Cons.prems obtain v where "required_fields attr r = Inr v"
    using has_required_fields by auto
  with Cons show ?case by simp
qed


lemma record_list_cases:
  assumes "record_list l"
  obtains rs where "l = JArr rs" "list_all has_required rs"
  using assms by (cases l) simp_all

lemma candidate_well_formed:
  assumes "record_list l"
  shows "candidate_outcome attr l = Inr ()"
    and "review_writes (candidate_events url attr index l) = map (mapped_review attr) (elements l)"
proof -
  from assms obtain rs where l: "l = JArr rs" "list_all has_required rs"
    by (rule record_list_cases)
  show "candidate_outcome attr l = Inr ()"
    using l by (simp add: candidate_outcome_def records_well_formed)
  show "review_writes (candidate_events url attr index l) = map (mapped_review attr) (elements l)"
    using l by (simp add: candidate_events_def review_writes_records_events)
qed

lemma candidates_well_formed:
  "list_all record_list ls \<Longrightarrow>
   candidates_outcome attr ls = Inr ()
   \<and> candidates_events url attr index ls = concat (map (candidate_events url attr index) ls)"
  by (induction ls) (simp_all add: candidate_well_formed(1))









section \<open>Review writes and the reviews table\<close>

lemma inserted_reviews_simps [simp]:
  "inserted_reviews [] = []"
  "inserted_reviews (InsertReview r # qs) = r # inserted_reviews qs"
  "inserted_reviews (InsertUser u # qs) = inserted_reviews qs"
  "inserted_reviews (UpdateAttraction x y n i # qs) = inserted_reviews qs"
  "inserted_reviews (SetScraped b i # qs) = inserted_reviews qs"
  by (simp_all add: inserted_reviews_def)

lemma review_writes_statements:
  "review_writes evs = inserted_reviews (statements evs)"
proof (induction evs)
  case Nil
  then show ?case by simp
next
  case (Cons e evs)
  then show ?case
    by (cases e) (simp_all add: review_writes_def statements_def inserted_reviews_def)
qed

lemma review_ids_execute:
  "review_ids (execute q d) = review_ids d \<union> ID ` set (inserted_reviews [q])"
  by (cases q) (auto simp add: review_ids_def)

lemma reviews_execute_known:
  "ID ` set (inserted_reviews [q]) \<subseteq> review_ids d \<Longrightarrow> reviews (execute q d) = reviews d"
  by (cases q) (auto simp add: review_ids_def)

lemma inserted_reviews_Cons:
  "inserted_reviews (q # qs) = inserted_reviews [q] @ inserted_reviews qs"
  by (simp add: inserted_reviews_def)

lemma review_ids_fold:
  "review_ids (fold execute qs d) = review_ids d \<union> ID ` set (inserted_reviews qs)"
proof (induction qs arbitrary: d)
  case Nil
  then show ?case by simp
next
  case (Cons q qs)
  have "review_ids (fold execute (q # qs) d) = review_ids (fold execute qs (execute q d))"
    by simp
  also have "\<dots> = review_ids (execute q d) \<union> ID ` set (inserted_reviews qs)"
    by (rule Cons.IH)
  also have "\<dots> = (review_ids d \<union> ID ` set (inserted_reviews [q]))
                    \<union> ID ` set (inserted_reviews qs)"
    by (simp only: review_ids_execute)
  also have "\<dots> = review_ids d \<union> ID ` set (inserted_reviews (q # qs))"
    by (subst (2) inserted_reviews_Cons) (simp only: set_append image_Un Un_assoc)
  finally show ?case .
qed

lemma reviews_fold_known:
  "ID ` set (inserted_reviews qs) \<subseteq> review_ids d \<Longrightarrow> reviews (fold execute qs d) = reviews d"
proof (induction qs arbitrary: d)
  case Nil
  then show ?case by simp
next
  case (Cons q qs)
  from Cons.prems have sub: "ID ` set (inserted_reviews [q]) \<subseteq> review_ids d"
    "ID ` set (inserted_reviews qs) \<subseteq> review_ids d"
    by (subst (asm) inserted_reviews_Cons, simp only: set_append image_Un Un_subset_iff)+
  have 1: "reviews (execute q d) = reviews d"
    using sub(1) by (rule reviews_execute_known)
  then have "review_ids (execute q d) = review_ids d"
    by (simp add: review_ids_def)
  with sub(2) have "reviews (fold execute qs (execute q d)) = reviews (execute q d)"
    by (intro Cons.IH) simp
  with 1 show ?case by simp
qed

lemma review_ids_after_events:
  "review_ids (db (after_events evs s)) = review_ids (db s) \<union> ID ` set (review_writes evs)"
  by (simp add: review_ids_fold review_writes_statements)

lemma reviews_after_known:
  "ID ` set (review_writes evs) \<subseteq> review_ids (db s) \<Longrightarrow>
   reviews (db (after_events evs s)) = reviews (db s)"
  by (simp add: reviews_fold_known review_writes_statements)

section \<open>Scraping a retrieved page\<close>

lemma retrieve_extends:
  assumes "retrieve net url index s = Some (r, s')"
  shows "\<exists>k evs. s' = requested k evs s \<and> list_all retrieval_event evs"
proof -
  from assms obtain c s1 where f: "fetch_loop net url s = Some (c, s1)"
    by (cases "fetch_loop net url s") (auto simp add: retrieve_def)
  from fetch_loop_extends [OF f] obtain k1 evs1 where
    s1: "s1 = requested k1 evs1 s" "list_all retrieval_event evs1" by auto
  show ?thesis
  proof (cases c)
    case None
    with assms f have "s' = s1" by (simp add: retrieve_def json_loads_def)
    with s1 show ?thesis by blast
  next
    case (Some data)
    with assms f have "retry_loop net url index data s1 = Some (r, s')"
      by (simp add: retrieve_def json_loads_def)
    from retry_loop_extends [OF this] obtain k2 evs2 where
      "s' = requested k2 evs2 s1" "list_all retrieval_event evs2" by auto
    with s1 have "s' = requested (k1 + k2) (evs1 @ evs2) s
        \<and> list_all retrieval_event (evs1 @ evs2)"
      by simp
    then show ?thesis by blast
  qed
qed

lemma scrape_page_data:
  "retrieve net url index (emit (Print (ScrapingPage url)) s) = Some (Inr data, s2) \<Longrightarrow>
   scrape_page net url attr index s
   = Some (candidates_outcome attr (traverse data),
           after_events (candidates_events url attr index (traverse data)) s2)"
  by (simp add: scrape_page_def scrape_candidates_eq)



lemma retrieve_steady:
  "retrieve steady_network page_url0 0 (emit (Print (ScrapingPage page_url0)) state0)
   = Some (Inr page0, requested 1 [Print (ScrapingPage page_url0), Get page_url0] state0)"
  using retrieve_retries [where net = steady_network
      and s = "requested 0 [Print (ScrapingPage page_url0)] state0"
      and url = page_url0 and n = 0 and m = 0 and data = page0 and index = 0]
  by (simp add: steady_network_def traverse_page0 reloads_def refetches_def emit_requested)

lemma well_formed_page0: "well_formed_page page0"
  by (simp add: well_formed_page_def traverse_page0 record1_def record2_def required_keys_def)


section \<open>A record without a required field\<close>









section \<open>A record without an optional field\<close>


lemma statements_reports [simp]:
  "statements (missing_report t a p r u # evs) = statements evs"
  by (simp add: missing_report_def)


lemma last_record_events:
  "last (record_events url attr index ridx r) = Exec (InsertReview (mapped_review attr r))"
  by (simp add: record_events_def)







section \<open>Scraping a page twice\<close>

lemma required_fields_attr:
  "required_fields attr' r = map_sum id (\<lambda>v. v\<lparr>attr_ID := attr'\<rparr>) (required_fields attr r)"
  by (simp add: required_fields_def split: sum.splits)

lemma ID_mapped_review [simp]: "ID (mapped_review attr r) = optional r [''id'']"
  by (simp add: mapped_review_def)

lemma records_outcome_attr:
  "records_outcome attr' rs = records_outcome attr rs"
proof (induction rs)
  case Nil
  then show ?case by simp
next
  case (Cons r rs)
  then show ?case
    by (cases "required_fields attr r") (simp_all add: required_fields_attr [of attr' r attr])
qed

lemma records_events_ids:
  "map ID (review_writes (records_events url' attr' index' ridx' rs))
   = map ID (review_writes (records_events url attr index ridx rs))"
proof (induction rs arbitrary: ridx ridx')
  case Nil
  then show ?case by simp
next
  case (Cons r rs)
  show ?case
    by (cases "required_fields attr r")
       (simp_all add: required_fields_attr [of attr' r attr] Cons.IH [of "ridx' + 1" "ridx + 1"])
qed

lemma candidate_outcome_attr:
  "candidate_outcome attr' l = candidate_outcome attr l"
  by (simp add: candidate_outcome_def records_outcome_attr [of attr' _ attr] split: sum.splits)

lemma candidate_events_ids:
  "map ID (review_writes (candidate_events url' attr' index' l))
   = map ID (review_writes (candidate_events url attr index l))"
  by (simp add: candidate_events_def records_events_ids [of url' attr' index' 0 _ url attr index 0]
      split: sum.splits)

lemma candidates_outcome_attr:
  "candidates_outcome attr' ls = candidates_outcome attr ls"
  by (induction ls) (simp_all add: candidate_outcome_attr [of attr' _ attr] split: sum.splits)

lemma candidates_events_ids:
  "map ID (review_writes (candidates_events url' attr' index' ls))
   = map ID (review_writes (candidates_events url attr index ls))"
  by (induction ls)
     (simp_all add: candidate_outcome_attr [of attr' _ attr]
        candidate_events_ids [of url' attr' index' _ url attr index] split: sum.splits)

lemma retrieve_db:
  "retrieve net url index s = Some (r, s') \<Longrightarrow> db s' = db s"
  using retrieve_extends [of net url index s r s'] by auto

lemma insert_known_review:
  "ID r \<in> review_ids d \<Longrightarrow> execute (InsertReview r) d = d"
  by (simp add: review_ids_def)

text \<open>
  C2. When \<open>scrape_page\<close> has run on a page and runs again on the same page data, the
  reviews table after the second run is the reviews table after the first, row for row,
  and the second run ends as the first did: every review write of the second run finds
  its id in the table, and a review write whose id is in the table leaves the store as it
  is.
\<close>

theorem scrape_page_twice:
  "(retrieve net url index (emit (Print (ScrapingPage url)) s) = Some (Inr data, sa)
    \<and> scrape_page net url attr index s = Some (r1, s1)
    \<and> retrieve net' url' index' (emit (Print (ScrapingPage url')) s1) = Some (Inr data, sb)
    \<and> scrape_page net' url' attr' index' s1 = Some (r2, s2) \<longrightarrow>
      reviews (db s2) = reviews (db s1) \<and> r2 = r1)
   \<and> (ID r \<in> review_ids d \<longrightarrow> execute (InsertReview r) d = d)"
proof (intro conjI impI)
  assume a: "retrieve net url index (emit (Print (ScrapingPage url)) s) = Some (Inr data, sa)
    \<and> scrape_page net url attr index s = Some (r1, s1)
    \<and> retrieve net' url' index' (emit (Print (ScrapingPage url')) s1) = Some (Inr data, sb)
    \<and> scrape_page net' url' attr' index' s1 = Some (r2, s2)"
  let ?E1 = "candidates_events url attr index (traverse data)"
  let ?E2 = "candidates_events url' attr' index' (traverse data)"
  from a have ra: "retrieve net url index (emit (Print (ScrapingPage url)) s) = Some (Inr data, sa)"
    and rb: "retrieve net' url' index' (emit (Print (ScrapingPage url')) s1) = Some (Inr data, sb)"
    and p1: "scrape_page net url attr index s = Some (r1, s1)"
    and p2: "scrape_page net' url' attr' index' s1 = Some (r2, s2)"
    by blast+
  from p1 have s1: "s1 = after_events ?E1 sa" and r1: "r1 = candidates_outcome attr (traverse data)"
    by (simp_all add: scrape_page_data [OF ra])
  from p2 have s2: "s2 = after_events ?E2 sb" and r2: "r2 = candidates_outcome attr' (traverse data)"
    by (simp_all add: scrape_page_data [OF rb])
  from retrieve_db [OF rb] have dbb: "db sb = db s1"
    by (simp add: emit_def)
  have "ID ` set (review_writes ?E2) = set (map ID (review_writes ?E2))"
    by simp
  also have "\<dots> = set (map ID (review_writes ?E1))"
    by (simp only: candidates_events_ids [of url' attr' index' _ url attr index])
  also have "\<dots> \<subseteq> review_ids (db s1)"
    unfolding s1 review_ids_after_events by auto
  finally have "ID ` set (review_writes ?E2) \<subseteq> review_ids (db sb)"
    by (simp only: dbb)
  then have "reviews (db (after_events ?E2 sb)) = reviews (db sb)"
    by (rule reviews_after_known)
  then show "reviews (db s2) = reviews (db s1)"
    by (simp only: s2 dbb)
  show "r2 = r1"
    by (simp only: r1 r2 candidates_outcome_attr [of attr' _ attr])
next
  assume "ID r \<in> review_ids d"
  then show "execute (InsertReview r) d = d"
    by (rule insert_known_review)
qed


lemma scrape_page_state0:
  "scrape_page steady_network page_url0 42 0 state0 = Some (Inr (), state1)"
  using scrape_page_data [OF retrieve_steady, of 42]
    candidates_well_formed [of "traverse page0" 42 page_url0 0] well_formed_page0
  by (simp add: state1_def well_formed_page_def)

lemma requests_state1: "requests state1 = 1"
  by (simp add: state1_def)

lemma retrieve_steady1:
  "retrieve steady_network page_url0 0 (emit (Print (ScrapingPage page_url0)) state1)
   = Some (Inr page0, requested 1 [Print (ScrapingPage page_url0), Get page_url0] state1)"
  using retrieve_retries [where net = steady_network
      and s = "requested 0 [Print (ScrapingPage page_url0)] state1"
      and url = page_url0 and n = 0 and m = 0 and data = page0 and index = 0]
  by (simp add: steady_network_def traverse_page0 reloads_def refetches_def emit_requested)

lemma reviews_state1:
  "map ID (reviews (db state1)) = [JInt 1001, JInt 1002]"
  by (simp add: state1_def traverse_page0 candidate_events_def candidate_outcome_def
      record_events_def record1_def record2_def required_fields_def store0_def
      mapped_review_def mapped_user_def optional_def missing_report_def optional_fields_def
      absent_def)

theorem scrape_page_twice_witness:
  "retrieve steady_network page_url0 0 (emit (Print (ScrapingPage page_url0)) state0)
     = Some (Inr page0, requested 1 [Print (ScrapingPage page_url0), Get page_url0] state0)
   \<and> scrape_page steady_network page_url0 42 0 state0 = Some (Inr (), state1)
   \<and> retrieve steady_network page_url0 0 (emit (Print (ScrapingPage page_url0)) state1)
     = Some (Inr page0, requested 1 [Print (ScrapingPage page_url0), Get page_url0] state1)
   \<and> scrape_page steady_network page_url0 42 0 state1
     = Some (Inr (),
         after_events (candidates_events page_url0 42 0 (traverse page0))
           (requested 1 [Print (ScrapingPage page_url0), Get page_url0] state1))
   \<and> reviews (db (after_events (candidates_events page_url0 42 0 (traverse page0))
           (requested 1 [Print (ScrapingPage page_url0), Get page_url0] state1)))
     = reviews (db state1)
   \<and> map ID (reviews (db state1)) = [JInt 1001, JInt 1002]"
proof -
  let ?s2 = "after_events (candidates_events page_url0 42 0 (traverse page0))
           (requested 1 [Print (ScrapingPage page_url0), Get page_url0] state1)"
  have p2: "scrape_page steady_network page_url0 42 0 state1 = Some (Inr (), ?s2)"
    using scrape_page_data [OF retrieve_steady1, of 42]
      candidates_well_formed [of "traverse page0" 42 page_url0 0] well_formed_page0
    by (simp add: well_formed_page_def)
  from scrape_page_twice [where net = steady_network and url = page_url0 and index = 0
      and s = state0 and data = page0 and attr = 42 and ?r1.0 = "Inr ()" and ?s1.0 = state1
      and sa = "requested 1 [Print (ScrapingPage page_url0), Get page_url0] state0"
      and net' = steady_network and url' = page_url0 and index' = 0 and attr' = 42
      and sb = "requested 1 [Print (ScrapingPage page_url0), Get page_url0] state1"
      and ?r2.0 = "Inr ()" and ?s2.0 = "?s2"]
    retrieve_steady scrape_page_state0 retrieve_steady1 p2
  have "reviews (db ?s2) = reviews (db state1)"
    by blast
  with retrieve_steady scrape_page_state0 retrieve_steady1 p2 reviews_state1
  show ?thesis by blast
qed

section \<open>The order of the writes of a run\<close>

lemma effects_sel [simp]:
  "db (effects k evs s) = fold execute (statements evs) (db s)"
  "trace (effects k evs s) = trace s @ evs"
  "requests (effects k evs s) = requests s + k"
  by (simp_all add: effects_def)

lemma effects_effects [simp]:
  "effects k2 e2 (effects k1 e1 s) = effects (k1 + k2) (e1 @ e2) s"
  by (simp add: effects_def)

lemma new_events_effects [simp]: "new_events s (effects k evs s) = evs"
  by (simp add: new_events_def)

lemma statements_retrieval:
  "list_all retrieval_event evs \<Longrightarrow> statements evs = []"
proof (induction evs)
  case Nil
  then show ?case by simp
next
  case (Cons e evs)
  then show ?case by (cases e) simp_all
qed

lemma requested_effects:
  "list_all retrieval_event evs \<Longrightarrow> requested k evs s = effects k evs s"
  by (simp add: requested_def effects_def statements_retrieval)

lemma after_events_effects: "after_events evs s = effects 0 evs s"
  by (simp add: after_events_def effects_def)

lemma emit_effects:
  "emit (Print m) s = effects 0 [Print m] s"
  "emit (Sleep p) s = effects 0 [Sleep p] s"
  by (simp_all add: emit_def effects_def)

lemma update_record_effects: "update_record q s = effects 0 [Exec q] s"
  by (simp add: update_record_def emit_def effects_def)

lemma pages_scraped_simps [simp]:
  "pages_scraped [] = []"
  "pages_scraped (Print (ScrapingPage l) # evs) = l # pages_scraped evs"
  "pages_scraped (Sleep p # evs) = pages_scraped evs"
  "pages_scraped (Exec q # evs) = pages_scraped evs"
  "pages_scraped (xs @ ys) = pages_scraped xs @ pages_scraped ys"
  by (simp_all add: pages_scraped_def)

lemma pages_scraped_none:
  "list_all (\<lambda>e. retrieval_event e \<or> page_write attr e) evs \<Longrightarrow> pages_scraped evs = []"
proof (induction evs)
  case Nil
  then show ?case by simp
next
  case (Cons e evs)
  then have "retrieval_event e \<or> page_write attr e" and "pages_scraped evs = []"
    by simp_all
  then show ?case
    by (cases e rule: retrieval_event.cases) (auto simp add: pages_scraped_def)
qed

lemma page_level_cases:
  "retrieval_event e \<Longrightarrow> page_level attr e"
  "page_write attr e \<Longrightarrow> page_level attr e"
  by (cases e rule: retrieval_event.cases; simp)+

lemma page_level_retrieval:
  "list_all retrieval_event evs \<Longrightarrow> list_all (page_level attr) evs"
  by (simp add: list_all_iff page_level_cases(1))

lemma page_level_page_write:
  "list_all (page_write attr) evs \<Longrightarrow> list_all (page_level attr) evs"
  by (simp add: list_all_iff page_level_cases(2))

lemma scrape_page_effects:
  assumes "scrape_page net url attr index s = Some (r, s')"
  shows "\<exists>k evs. s' = effects k (Print (ScrapingPage url) # evs) s
           \<and> list_all (page_level attr) evs \<and> pages_scraped evs = []"
proof -
  let ?s0 = "emit (Print (ScrapingPage url)) s"
  from assms obtain r1 s1 where ret: "retrieve net url index ?s0 = Some (r1, s1)"
    by (cases "retrieve net url index ?s0") (auto simp add: scrape_page_def)
  from retrieve_extends [OF ret] obtain k rev where
    s1: "s1 = requested k rev ?s0" and rev: "list_all retrieval_event rev"
    by blast
  from s1 rev have s1': "s1 = effects k (Print (ScrapingPage url) # rev) s"
    by (simp add: requested_effects emit_effects)
  have none: "pages_scraped rev = []"
    using rev by (intro pages_scraped_none [where attr = attr]) (simp add: list_all_iff)
  show ?thesis
  proof (cases r1)
    case (Inl e)
    with assms ret have "s' = s1" by (simp add: scrape_page_def)
    with s1' rev none show ?thesis
      using page_level_retrieval by blast
  next
    case (Inr data)
    let ?cev = "candidates_events url attr index (traverse data)"
    from Inr assms ret have "s' = after_events ?cev s1"
      by (simp add: scrape_page_def scrape_candidates_eq)
    with s1' have "s' = effects k (Print (ScrapingPage url) # rev @ ?cev) s"
      by (simp add: after_events_effects)
    moreover have "list_all (page_level attr) (rev @ ?cev)"
      using page_level_retrieval [OF rev] page_level_page_write [OF candidates_events_page_write]
      by simp
    moreover have "pages_scraped (rev @ ?cev) = []"
      using none pages_scraped_none [where attr = attr and evs = ?cev]
        candidates_events_page_write [of attr url index "traverse data"]
      by (simp add: list_all_iff)
    ultimately show ?thesis by blast
  qed
qed


lemma effects_Nil [simp]: "effects 0 [] s = s"
  by (simp add: effects_def)

lemma scrape_links_effects:
  "scrape_links net attr index links s = Some (r, s') \<Longrightarrow>
   \<exists>k evs. s' = effects k evs s \<and> list_all (page_level attr) evs
     \<and> (r = Inr () \<longrightarrow> pages_scraped evs = links)"
proof (induction links arbitrary: index s)
  case Nil
  then have "s' = effects 0 [] s \<and> list_all (page_level attr) [] \<and> pages_scraped [] = []"
    by simp
  then show ?case by blast
next
  case (Cons link links)
  from Cons.prems obtain r1 s1 where p: "scrape_page net link attr index s = Some (r1, s1)"
    by (cases "scrape_page net link attr index s") auto
  from scrape_page_effects [OF p] obtain k1 ev1 where
    s1: "s1 = effects k1 (Print (ScrapingPage link) # ev1) s"
    and ev1: "list_all (page_level attr) ev1" "pages_scraped ev1 = []"
    by blast
  show ?case
  proof (cases r1)
    case (Inl e)
    with Cons.prems p have "r = Inl e" "s' = s1" by simp_all
    with s1 ev1 have "s' = effects k1 (Print (ScrapingPage link) # ev1) s
        \<and> list_all (page_level attr) (Print (ScrapingPage link) # ev1)
        \<and> (r = Inr () \<longrightarrow> pages_scraped (Print (ScrapingPage link) # ev1) = link # links)"
      by simp
    then show ?thesis by blast
  next
    case (Inr u)
    with Cons.prems p have
      "scrape_links net attr (index + 1) links (emit (Sleep PagePause) s1) = Some (r, s')"
      by simp
    from Cons.IH [OF this] obtain k2 ev2 where
      s': "s' = effects k2 ev2 (emit (Sleep PagePause) s1)"
      and ev2: "list_all (page_level attr) ev2" "r = Inr () \<longrightarrow> pages_scraped ev2 = links"
      by blast
    let ?evs = "Print (ScrapingPage link) # ev1 @ [Sleep PagePause] @ ev2"
    from s' s1 have "s' = effects (k1 + k2) ?evs s"
      by (simp add: emit_effects)
    moreover from ev1 ev2 have "list_all (page_level attr) ?evs"
      by simp
    moreover from ev1 ev2 have "r = Inr () \<longrightarrow> pages_scraped ?evs = link # links"
      by simp
    ultimately show ?thesis by blast
  qed
qed

lemma scrape_attraction_segment:
  assumes "scrape_attraction w self (a, u) s = Some (r, s')"
  shows "\<exists>k mid. s' = effects k mid s \<and> segment w self a u r mid"
proof -
  let ?url = "base_url self @ u"
  obtain loc n pages where d: "get_attr_details w ?url = (loc, n, pages)"
    by (cases "get_attr_details w ?url") auto
  let ?s1 = "emit (Print (Details loc n pages)) s"
  show ?thesis
  proof (cases loc)
    case None
    with assms d have "r = Inl TypeError" "s' = ?s1"
      by (simp_all add: scrape_attraction_def update_attraction_def)
    then have "s' = effects 0 [Print (Details loc n pages)] s
        \<and> segment w self a u r [Print (Details loc n pages)]"
      using None d by (simp add: emit_effects segment_def)
    then show ?thesis by blast
  next
    case (Some l)
    obtain l0 l1 where l: "l = (l0, l1)" by (cases l)
    let ?s2 = "update_record (UpdateAttraction l1 l0 n a) ?s1"
    let ?links = "generate_page_links (page_url w) (search_type self) ?url pages"
    let ?head = "[Print (Details loc n pages), Exec (UpdateAttraction l1 l0 n a)]"
    have s2: "?s2 = effects 0 ?head s"
      by (simp add: emit_effects update_record_effects)
    from assms d Some l obtain r3 s3 where
      sl: "scrape_links (http w) a 0 ?links ?s2 = Some (r3, s3)"
      by (cases "scrape_links (http w) a 0 ?links ?s2")
         (auto simp add: scrape_attraction_def update_attraction_def)
    from scrape_links_effects [OF sl] obtain k seg where
      s3: "s3 = effects k seg ?s2" and seg: "list_all (page_level a) seg"
      "r3 = Inr () \<longrightarrow> pages_scraped seg = ?links"
      by blast
    show ?thesis
    proof (cases r3)
      case (Inl e)
      with assms d Some l sl have "r = Inl e" "s' = s3"
        by (simp_all add: scrape_attraction_def update_attraction_def)
      with s3 s2 have "s' = effects k (?head @ seg) s" by simp
      moreover have "segment w self a u r (?head @ seg)"
        using \<open>r = Inl e\<close> d Some l seg(1) by (simp add: segment_def)
      ultimately show ?thesis by blast
    next
      case (Inr v)
      let ?tail = "[Print (ScrapedSet a True), Exec (SetScraped True a)]"
      from Inr assms d Some l sl have r: "r = Inr ()"
        and "s' = set_scraped \<lparr>attraction_ID = a, attraction_location = loc, num_reviews = n\<rparr>
                     True s3"
        by (simp_all add: scrape_attraction_def update_attraction_def)
      then have "s' = effects 0 ?tail s3"
        by (simp add: set_scraped_def emit_effects update_record_effects)
      with s3 s2 have "s' = effects k (?head @ seg @ ?tail) s" by simp
      moreover have "segment w self a u r (?head @ seg @ ?tail)"
        using r d Some l seg Inr by (simp add: segment_def)
      ultimately show ?thesis by blast
    qed
  qed
qed


lemma page_level_foreign:
  "page_level b e \<Longrightarrow> b \<noteq> a \<Longrightarrow> foreign a e"
  by (cases "(a, e)" rule: foreign.cases) auto

lemma segment_foreign:
  assumes "segment w self b u r mid" and "b \<noteq> a"
  shows "list_all (foreign a) mid"
proof -
  obtain loc n pages where d: "get_attr_details w (base_url self @ u) = (loc, n, pages)"
    by (cases "get_attr_details w (base_url self @ u)") auto
  show ?thesis
  proof (cases loc)
    case None
    with assms d show ?thesis by (simp add: segment_def)
  next
    case (Some l)
    obtain l0 l1 where l: "l = (l0, l1)" by (cases l)
    from assms(1) d Some l obtain seg where seg: "list_all (page_level b) seg"
      and mid: "mid = Print (Details loc n pages) # Exec (UpdateAttraction l1 l0 n b) # seg
        \<or> mid = Print (Details loc n pages) # Exec (UpdateAttraction l1 l0 n b) # seg
              @ [Print (ScrapedSet b True), Exec (SetScraped True b)]"
      by (cases r) (auto simp add: segment_def)
    from seg assms(2) have "list_all (foreign a) seg"
      unfolding list_all_iff using page_level_foreign by blast
    with mid assms(2) show ?thesis by auto
  qed
qed

lemma scrape_rows_foreign:
  "scrape_rows w self rows s = Some (r, s') \<Longrightarrow> a \<notin> fst ` set rows \<Longrightarrow>
   \<exists>k evs. s' = effects k evs s \<and> list_all (foreign a) evs"
proof (induction rows arbitrary: s)
  case Nil
  then have "s' = effects 0 [] s \<and> list_all (foreign a) []" by simp
  then show ?case by blast
next
  case (Cons row rows)
  obtain b u where row: "row = (b, u)" by (cases row)
  with Cons.prems have ba: "b \<noteq> a" and rest: "a \<notin> fst ` set rows" by auto
  from Cons.prems obtain r1 s1 where a1: "scrape_attraction w self (b, u) s = Some (r1, s1)"
    by (cases "scrape_attraction w self (b, u) s") (auto simp add: row)
  from scrape_attraction_segment [OF a1] obtain k1 mid where
    s1: "s1 = effects k1 mid s" and mid: "segment w self b u r1 mid" by blast
  from segment_foreign [OF mid ba] have f1: "list_all (foreign a) mid" .
  show ?case
  proof (cases r1)
    case (Inl e)
    with Cons.prems a1 row have "s' = s1" by simp
    with s1 f1 show ?thesis by blast
  next
    case (Inr v)
    with Cons.prems a1 row have "scrape_rows w self rows s1 = Some (r, s')" by simp
    from Cons.IH [OF this rest] obtain k2 evs where
      "s' = effects k2 evs s1" "list_all (foreign a) evs" by blast
    with s1 f1 have "s' = effects (k1 + k2) (mid @ evs) s \<and> list_all (foreign a) (mid @ evs)"
      by simp
    then show ?thesis by blast
  qed
qed

lemma scrape_rows_shape:
  "scrape_rows w self rows s = Some (res, s') \<Longrightarrow> distinct (map fst rows) \<Longrightarrow>
   (a, u) \<in> set rows \<Longrightarrow>
   \<exists>k pre mid post. s' = effects k (pre @ mid @ post) s
     \<and> list_all (foreign a) pre \<and> list_all (foreign a) post
     \<and> (segment w self a u (Inr ()) mid
        \<or> (\<exists>e. res = Inl e \<and> post = [] \<and> (mid = [] \<or> segment w self a u (Inl e) mid)))"
proof (induction rows arbitrary: s)
  case Nil
  then show ?case by simp
next
  case (Cons row rows)
  obtain b v where row: "row = (b, v)" by (cases row)
  from Cons.prems obtain r1 s1 where a1: "scrape_attraction w self (b, v) s = Some (r1, s1)"
    by (cases "scrape_attraction w self (b, v) s") (auto simp add: row)
  from scrape_attraction_segment [OF a1] obtain k1 ev1 where
    s1: "s1 = effects k1 ev1 s" and seg1: "segment w self b v r1 ev1" by blast
  show ?case
  proof (cases "b = a")
    case True
    with Cons.prems(2,3) row have uv: "v = u" and rest: "a \<notin> fst ` set rows"
      by (auto simp add: image_iff)
    show ?thesis
    proof (cases r1)
      case (Inl e)
      with Cons.prems(1) a1 row have "res = Inl e" "s' = s1" by simp_all
      with s1 seg1 True uv Inl have "s' = effects k1 ([] @ ev1 @ []) s
          \<and> list_all (foreign a) [] \<and> list_all (foreign a) []
          \<and> res = Inl e \<and> segment w self a u (Inl e) ev1"
        by simp
      then show ?thesis by blast
    next
      case (Inr x)
      with Cons.prems(1) a1 row have "scrape_rows w self rows s1 = Some (res, s')" by simp
      from scrape_rows_foreign [OF this rest] obtain k2 post where
        "s' = effects k2 post s1" "list_all (foreign a) post" by blast
      with s1 seg1 True uv Inr have "s' = effects (k1 + k2) ([] @ ev1 @ post) s
          \<and> list_all (foreign a) [] \<and> list_all (foreign a) post
          \<and> segment w self a u (Inr ()) ev1"
        by simp
      then show ?thesis by blast
    qed
  next
    case False
    from segment_foreign [OF seg1 False] have f1: "list_all (foreign a) ev1" .
    from False Cons.prems(3) row have mem: "(a, u) \<in> set rows" by auto
    from Cons.prems(2) have dist: "distinct (map fst rows)" by simp
    show ?thesis
    proof (cases r1)
      case (Inl e)
      with Cons.prems(1) a1 row have "res = Inl e" "s' = s1" by simp_all
      with s1 f1 have "s' = effects k1 (ev1 @ [] @ []) s
          \<and> list_all (foreign a) ev1 \<and> list_all (foreign a) []
          \<and> res = Inl e"
        by simp
      then show ?thesis by blast
    next
      case (Inr x)
      with Cons.prems(1) a1 row have "scrape_rows w self rows s1 = Some (res, s')" by simp
      from Cons.IH [OF this dist mem] obtain k2 pre mid post where
        s': "s' = effects k2 (pre @ mid @ post) s1"
        and f: "list_all (foreign a) pre" "list_all (foreign a) post"
        and sh: "segment w self a u (Inr ()) mid
          \<or> (\<exists>e. res = Inl e \<and> post = [] \<and> (mid = [] \<or> segment w self a u (Inl e) mid))"
        by blast
      from s' s1 f f1 have "s' = effects (k1 + k2) ((ev1 @ pre) @ mid @ post) s
          \<and> list_all (foreign a) (ev1 @ pre) \<and> list_all (foreign a) post"
        by simp
      with sh show ?thesis by blast
    qed
  qed
qed

lemma not_foreign_notin:
  "list_all (foreign a) xs \<Longrightarrow> \<not> foreign a y \<Longrightarrow> y \<notin> set xs"
  by (auto simp add: list_all_iff)

lemma not_page_level_notin:
  "list_all (page_level a) xs \<Longrightarrow> \<not> page_level a y \<Longrightarrow> y \<notin> set xs"
  by (auto simp add: list_all_iff)

lemma split_unique:
  "x \<notin> set xs \<Longrightarrow> x \<notin> set ys \<Longrightarrow> xs @ x # ys = xs' @ x # ys' \<Longrightarrow> xs = xs' \<and> ys = ys'"
proof (induction xs arbitrary: xs')
  case Nil
  then show ?case by (cases xs') auto
next
  case (Cons h t)
  then show ?case by (cases xs') auto
qed

lemma prefix_before:
  "xs @ ys = before @ y # after \<Longrightarrow> y \<notin> set xs \<Longrightarrow> \<exists>t. before = xs @ t"
proof (induction xs arbitrary: before)
  case Nil
  then show ?case by simp
next
  case (Cons h t)
  then show ?case by (cases before) auto
qed

lemma scraped_execute:
  "scraped_flags a (execute q d) =
     (case q of
        SetScraped b i \<Rightarrow>
          if i = a then replicate (length (scraped_flags a d)) b else scraped_flags a d
      | _ \<Rightarrow> scraped_flags a d)"
proof (cases q)
  case (UpdateAttraction x y n i)
  have "map scraped (filter (\<lambda>r. row_id r = a)
          (map (\<lambda>r. if row_id r = i then r\<lparr>geom := Some (x, y), row_num_reviews := Some n\<rparr>
                     else r) rows))
        = map scraped (filter (\<lambda>r. row_id r = a) rows)" for rows :: "attraction_row list"
    by (induction rows) auto
  with UpdateAttraction show ?thesis by (simp add: scraped_flags_def)
next
  case (SetScraped b i)
  have 1: "map scraped (filter (\<lambda>r. row_id r = a)
          (map (\<lambda>r. if row_id r = a then r\<lparr>scraped := b\<rparr> else r) rows))
        = replicate (length (filter (\<lambda>r. row_id r = a) rows)) b"
    for rows :: "attraction_row list"
    by (induction rows) auto
  have 2: "i \<noteq> a \<Longrightarrow> map scraped (filter (\<lambda>r. row_id r = a)
          (map (\<lambda>r. if row_id r = i then r\<lparr>scraped := b\<rparr> else r) rows))
        = map scraped (filter (\<lambda>r. row_id r = a) rows)" for rows :: "attraction_row list"
    by (induction rows) auto
  show ?thesis
    by (cases "i = a") (simp_all add: SetScraped scraped_flags_def 1 2)
qed (simp_all add: scraped_flags_def)

lemma scraped_fold_foreign:
  "list_all (\<lambda>e. \<forall>b. e \<noteq> Exec (SetScraped b a)) evs \<Longrightarrow>
   scraped_flags a (fold execute (statements evs) d) = scraped_flags a d"
proof (induction evs arbitrary: d)
  case Nil
  then show ?case by simp
next
  case (Cons e evs)
  show ?case
  proof (cases e)
    case (Exec q)
    from Cons.prems have "e \<noteq> Exec (SetScraped b a)" for b by simp
    with Exec have "q \<noteq> SetScraped b a" for b by simp
    then have "scraped_flags a (execute q d) = scraped_flags a d"
      by (cases q) (auto simp add: scraped_execute simp del: execute.simps)
    with Cons Exec show ?thesis by simp
  qed (use Cons in simp_all)
qed

lemma foreign_keeps_flag:
  "list_all (foreign a) evs \<Longrightarrow> list_all (\<lambda>e. \<forall>b. e \<noteq> Exec (SetScraped b a)) evs"
  by (auto simp add: list_all_iff)

lemma page_level_keeps_flag:
  "list_all (page_level a) evs \<Longrightarrow> list_all (\<lambda>e. \<forall>b. e \<noteq> Exec (SetScraped b a)) evs"
  by (auto simp add: list_all_iff)

lemma pending_flags:
  assumes "distinct (map row_id (attractions d))" and "(a, u) \<in> set (pending d)"
  shows "scraped_flags a d = [False]"
proof -
  have "distinct (map row_id rows) \<Longrightarrow> row \<in> set rows \<Longrightarrow>
        filter (\<lambda>r. row_id r = row_id row) rows = [row]" for rows and row :: attraction_row
  proof (induction rows)
    case Nil
    then show ?case by simp
  next
    case (Cons x xs)
    show ?case
    proof (cases "x = row")
      case True
      with Cons.prems have "row_id row \<notin> row_id ` set xs" by simp
      then have "\<forall>r\<in>set xs. row_id r \<noteq> row_id row" by (metis imageI)
      then have "filter (\<lambda>r. row_id r = row_id row) xs = []" by (simp add: filter_empty_conv)
      with True show ?thesis by simp
    next
      case False
      with Cons.prems have "row \<in> set xs" "row_id x \<noteq> row_id row" by auto
      with Cons show ?thesis by simp
    qed
  qed
  moreover from assms(2) obtain row where "row \<in> set (attractions d)" "\<not> scraped row"
    "row_id row = a"
    by (auto simp add: pending_def)
  ultimately show ?thesis
    using assms(1) by (auto simp add: scraped_flags_def)
qed

lemma pending_distinct:
  "distinct (map row_id (attractions d)) \<Longrightarrow> distinct (map fst (pending d))"
  by (simp add: pending_def comp_def distinct_map_filter)


lemma do_scrape_shape:
  assumes run: "do_scrape w self s = Some (res, s')"
    and pk: "distinct (map row_id (attractions (db s)))"
    and row: "(a, u) \<in> set (pending (db s))"
  shows "\<exists>k pre mid post. s' = effects k (pre @ mid @ post) s
     \<and> list_all (foreign a) pre \<and> list_all (foreign a) post
     \<and> (segment w self a u (Inr ()) mid
        \<or> (\<exists>e. res = Inl e \<and> post = [] \<and> (mid = [] \<or> segment w self a u (Inl e) mid)))"
proof -
  have failed: ?thesis if "res = Inl e" "s' = s" for e
  proof -
    from that have "s' = effects 0 ([] @ [] @ []) s \<and> list_all (foreign a) []
        \<and> res = Inl e \<and> ([] :: event list) = []"
      by simp
    then show ?thesis by blast
  qed
  show ?thesis
  proof (cases "read_attractions (attr_types self)")
    case None
    with run have "res = Inl ProgrammingError" "s' = s" by (simp_all add: do_scrape_def)
    then show ?thesis by (rule failed)
  next
    case (Some qp)
    obtain q ps where qp: "qp = (q, ps)" by (cases qp)
    show ?thesis
    proof (cases "q = query_template")
      case False
      with run Some qp have "res = Inl ProgrammingError" "s' = s"
        by (simp_all add: do_scrape_def cursor_execute_def)
      then show ?thesis by (rule failed)
    next
      case True
      with run Some qp have "scrape_rows w self (pending (db s)) s = Some (res, s')"
        by (simp add: do_scrape_def cursor_execute_def pending_def)
      from scrape_rows_shape [OF this pending_distinct [OF pk] row] show ?thesis .
    qed
  qed
qed

lemma segment_cases:
  assumes "segment w self a u r mid"
  obtains loc n p where "mid = [Print (Details loc n p)]"
  | loc n p l0 l1 rest where
      "mid = Print (Details loc n p) # Exec (UpdateAttraction l1 l0 n a) # rest"
proof -
  obtain loc n p where d: "get_attr_details w (base_url self @ u) = (loc, n, p)"
    by (cases "get_attr_details w (base_url self @ u)") auto
  show ?thesis
  proof (cases loc)
    case None
    with assms d that(1) show ?thesis by (simp add: segment_def)
  next
    case (Some l)
    obtain l0 l1 where "l = (l0, l1)" by (cases l)
    with assms d Some that(2) show ?thesis
      by (cases r) (auto simp add: segment_def)
  qed
qed

lemma segment_done:
  assumes "segment w self a u (Inr ()) mid"
  obtains loc n p l0 l1 seg where
    "mid = Print (Details loc n p) # Exec (UpdateAttraction l1 l0 n a) # seg
           @ [Print (ScrapedSet a True), Exec (SetScraped True a)]"
    "list_all (page_level a) seg"
    "pages_scraped seg
     = generate_page_links (page_url w) (search_type self) (base_url self @ u)
         (snd (snd (get_attr_details w (base_url self @ u))))"
proof -
  obtain loc n p where d: "get_attr_details w (base_url self @ u) = (loc, n, p)"
    by (cases "get_attr_details w (base_url self @ u)") auto
  show ?thesis
  proof (cases loc)
    case None
    with assms d show ?thesis by (simp add: segment_def)
  next
    case (Some l)
    obtain l0 l1 where "l = (l0, l1)" by (cases l)
    with assms d Some that show ?thesis
      by (auto simp add: segment_def)
  qed
qed

lemma segment_failed:
  assumes "segment w self a u (Inl e) mid"
  shows "list_all (\<lambda>e. \<forall>b. e \<noteq> Exec (SetScraped b a)) mid"
proof -
  obtain loc n p where d: "get_attr_details w (base_url self @ u) = (loc, n, p)"
    by (cases "get_attr_details w (base_url self @ u)") auto
  show ?thesis
  proof (cases loc)
    case None
    with assms d show ?thesis by (simp add: segment_def)
  next
    case (Some l)
    obtain l0 l1 where "l = (l0, l1)" by (cases l)
    with assms d Some obtain seg where "list_all (page_level a) seg"
      "mid = Print (Details loc n p) # Exec (UpdateAttraction l1 l0 n a) # seg"
      by (auto simp add: segment_def)
    with page_level_keeps_flag [of a seg] show ?thesis by simp
  qed
qed

lemma fold_statements_append:
  "fold execute (statements (xs @ ys)) d = fold execute (statements ys) (fold execute (statements xs) d)"
  by simp

lemma flags_after_segment:
  assumes "list_all (foreign a) pre" and "list_all (page_level a) seg"
    and "list_all (foreign a) post"
  shows "scraped_flags a
           (fold execute
              (statements (pre @ (Print (Details loc n p) # Exec (UpdateAttraction x y n a) # seg
                           @ [Print (ScrapedSet a True), Exec (SetScraped True a)]) @ post)) d)
         = replicate (length (scraped_flags a d)) True"
proof -
  let ?d1 = "fold execute (statements pre) d"
  let ?d2 = "execute (UpdateAttraction x y n a) ?d1"
  let ?d3 = "fold execute (statements seg) ?d2"
  let ?d4 = "execute (SetScraped True a) ?d3"
  have 1: "scraped_flags a ?d1 = scraped_flags a d"
    by (rule scraped_fold_foreign [OF foreign_keeps_flag [OF assms(1)]])
  have 2: "scraped_flags a ?d2 = scraped_flags a ?d1"
    by (simp add: scraped_execute del: execute.simps)
  have 3: "scraped_flags a ?d3 = scraped_flags a ?d2"
    by (rule scraped_fold_foreign [OF page_level_keeps_flag [OF assms(2)]])
  have 4: "scraped_flags a ?d4 = replicate (length (scraped_flags a ?d3)) True"
    by (simp add: scraped_execute del: execute.simps)
  have 5: "scraped_flags a (fold execute (statements post) ?d4) = scraped_flags a ?d4"
    by (rule scraped_fold_foreign [OF foreign_keeps_flag [OF assms(3)]])
  have "fold execute
              (statements (pre @ (Print (Details loc n p) # Exec (UpdateAttraction x y n a) # seg
                           @ [Print (ScrapedSet a True), Exec (SetScraped True a)]) @ post)) d
        = fold execute (statements post) ?d4"
    by (simp del: execute.simps)
  with 1 2 3 4 5 show ?thesis by (simp del: execute.simps)
qed

text \<open>
  C1. In a run of \<open>do_scrape\<close> that returns or raises, over a store whose attraction ids
  are distinct, for every attraction \<open>a\<close> that was pending: every write of a review of \<open>a\<close>
  comes after a write of the metadata of \<open>a\<close>; wherever the scraped flag of \<open>a\<close> is
  written, what precedes it ends with the metadata write of \<open>a\<close>, the scraping of exactly
  the page links of \<open>a\<close> in order, and the line that announces the flag, and nothing before
  that metadata write or after the flag write concerns \<open>a\<close>, so the flag is written at most
  once and after every page; the flag is false at the start, true at the end of a run that
  returns, and still false at the end of a run in which it was not written.
\<close>

theorem do_scrape_order:
  "do_scrape w self s = Some (res, s')
   \<and> distinct (map row_id (attractions (db s)))
   \<and> (a, u) \<in> set (pending (db s)) \<longrightarrow>
     (\<forall>before r after.
         new_events s s' = before @ Exec (InsertReview r) # after \<and> attr_ID r = a \<longrightarrow>
         (\<exists>x y n. Exec (UpdateAttraction x y n a) \<in> set before))
   \<and> (\<forall>before after.
         new_events s s' = before @ Exec (SetScraped True a) # after \<longrightarrow>
         (\<exists>head x y n seg.
             before = head @ Exec (UpdateAttraction x y n a) # seg
                      @ [Print (ScrapedSet a True)]
           \<and> list_all (foreign a) head
           \<and> list_all (page_level a) seg
           \<and> pages_scraped seg
             = generate_page_links (page_url w) (search_type self) (base_url self @ u)
                 (snd (snd (get_attr_details w (base_url self @ u))))
           \<and> list_all (foreign a) after))
   \<and> scraped_flags a (db s) = [False]
   \<and> (res = Inr () \<longrightarrow>
        Exec (SetScraped True a) \<in> set (new_events s s') \<and> scraped_flags a (db s') = [True])
   \<and> (Exec (SetScraped True a) \<notin> set (new_events s s') \<longrightarrow>
        scraped_flags a (db s') = [False])"
proof (intro impI)
  assume hyp: "do_scrape w self s = Some (res, s')
   \<and> distinct (map row_id (attractions (db s)))
   \<and> (a, u) \<in> set (pending (db s))"
  let ?X = "Exec (SetScraped True a)"
  let ?T = "new_events s s'"
  from hyp have run: "do_scrape w self s = Some (res, s')"
    and pk: "distinct (map row_id (attractions (db s)))"
    and row: "(a, u) \<in> set (pending (db s))"
    by blast+
  from do_scrape_shape [OF run pk row] obtain k pre mid post where
    s': "s' = effects k (pre @ mid @ post) s"
    and pre: "list_all (foreign a) pre" and post: "list_all (foreign a) post"
    and sh: "segment w self a u (Inr ()) mid
        \<or> (\<exists>e. res = Inl e \<and> post = [] \<and> (mid = [] \<or> segment w self a u (Inl e) mid))"
    by blast
  have T: "?T = pre @ mid @ post"
    by (simp add: s')
  have flag0: "scraped_flags a (db s) = [False]"
    by (rule pending_flags [OF pk row])
  have X_pre: "?X \<notin> set pre" and X_post: "?X \<notin> set post"
    using not_foreign_notin [OF pre, of ?X] not_foreign_notin [OF post, of ?X] by simp_all
  \<comment> \<open>the metadata write comes before every review write of the attraction\<close>
  have reviews: "\<exists>x y n. Exec (UpdateAttraction x y n a) \<in> set before"
    if dec: "?T = before @ Exec (InsertReview r) # after" and ra: "attr_ID r = a"
    for before r after
  proof -
    let ?Y = "Exec (InsertReview r)"
    from ra have nf: "\<not> foreign a ?Y" by simp
    from dec have "?Y \<in> set ?T" by simp
    moreover have "?Y \<notin> set pre" "?Y \<notin> set post"
      using not_foreign_notin [OF pre nf] not_foreign_notin [OF post nf] by simp_all
    ultimately have in_mid: "?Y \<in> set mid" by (simp add: T)
    then have "mid \<noteq> []" by auto
    with sh obtain r' where "segment w self a u r' mid" by blast
    then show ?thesis
    proof (cases rule: segment_cases)
      case (1 loc n p)
      with in_mid show ?thesis by simp
    next
      case (2 loc n p l0 l1 rest)
      let ?U = "Exec (UpdateAttraction l1 l0 n a)"
      let ?front = "pre @ [Print (Details loc n p), ?U]"
      from 2 T dec have "?front @ (rest @ post) = before @ ?Y # after" by simp
      moreover have "?Y \<notin> set ?front"
        using \<open>?Y \<notin> set pre\<close> by simp
      ultimately obtain t where "before = ?front @ t"
        using prefix_before [of ?front "rest @ post" before ?Y after] by blast
      then have "?U \<in> set before" by simp
      then show ?thesis by blast
    qed
  qed
  \<comment> \<open>the flag write, where it occurs, closes the segment of the attraction\<close>
  have done_shape: "\<exists>loc n p l0 l1 seg.
      mid = Print (Details loc n p) # Exec (UpdateAttraction l1 l0 n a) # seg
            @ [Print (ScrapedSet a True), ?X]
      \<and> list_all (page_level a) seg
      \<and> pages_scraped seg
        = generate_page_links (page_url w) (search_type self) (base_url self @ u)
            (snd (snd (get_attr_details w (base_url self @ u))))"
    if "segment w self a u (Inr ()) mid"
    using that by (rule segment_done) blast
  have no_flag: "?X \<notin> set mid" if "\<not> segment w self a u (Inr ()) mid"
  proof -
    from that sh obtain e where "mid = [] \<or> segment w self a u (Inl e) mid" by blast
    then show ?thesis
    proof
      assume "mid = []"
      then show ?thesis by simp
    next
      assume "segment w self a u (Inl e) mid"
      from segment_failed [OF this] show ?thesis by (auto simp add: list_all_iff)
    qed
  qed
  have flag: "\<exists>head x y n seg.
             before = head @ Exec (UpdateAttraction x y n a) # seg
                      @ [Print (ScrapedSet a True)]
           \<and> list_all (foreign a) head
           \<and> list_all (page_level a) seg
           \<and> pages_scraped seg
             = generate_page_links (page_url w) (search_type self) (base_url self @ u)
                 (snd (snd (get_attr_details w (base_url self @ u))))
           \<and> list_all (foreign a) after"
    if dec: "?T = before @ ?X # after" for before after
  proof -
    from dec have "?X \<in> set ?T" by simp
    with X_pre X_post have "?X \<in> set mid" by (simp add: T)
    with no_flag have "segment w self a u (Inr ()) mid" by blast
    from done_shape [OF this] obtain loc n p l0 l1 seg where
      mid: "mid = Print (Details loc n p) # Exec (UpdateAttraction l1 l0 n a) # seg
            @ [Print (ScrapedSet a True), ?X]"
      and seg: "list_all (page_level a) seg"
      and pages: "pages_scraped seg
        = generate_page_links (page_url w) (search_type self) (base_url self @ u)
            (snd (snd (get_attr_details w (base_url self @ u))))"
      by blast
    let ?head = "pre @ [Print (Details loc n p)]"
    let ?before = "?head @ Exec (UpdateAttraction l1 l0 n a) # seg @ [Print (ScrapedSet a True)]"
    have "?X \<notin> set seg"
      using not_page_level_notin [OF seg, of ?X] by simp
    with X_pre have "?X \<notin> set ?before" by simp
    moreover from T mid dec have "?before @ ?X # post = before @ ?X # after" by simp
    ultimately have "?before = before \<and> post = after"
      using X_post split_unique [of ?X ?before post before after] by blast
    then have b: "before = ?head @ Exec (UpdateAttraction l1 l0 n a) # seg
                      @ [Print (ScrapedSet a True)]" and p: "after = post"
      by simp_all
    from pre have h: "list_all (foreign a) ?head" by simp
    from b h seg pages post p show ?thesis by blast
  qed
  have finished: "?X \<in> set ?T \<and> scraped_flags a (db s') = [True]" if "res = Inr ()"
  proof -
    from that sh have "segment w self a u (Inr ()) mid" by auto
    from done_shape [OF this] obtain loc n p l0 l1 seg where
      mid: "mid = Print (Details loc n p) # Exec (UpdateAttraction l1 l0 n a) # seg
            @ [Print (ScrapedSet a True), ?X]"
      and seg: "list_all (page_level a) seg"
      by blast
    from mid have "?X \<in> set ?T" by (simp add: T)
    moreover have "scraped_flags a (db s') = [True]"
      unfolding s' effects_sel mid
      by (simp only: flags_after_segment [OF pre seg post] flag0) simp
    ultimately show ?thesis by blast
  qed
  have unfinished: "scraped_flags a (db s') = [False]" if "?X \<notin> set ?T"
  proof -
    have "list_all (\<lambda>e. \<forall>b. e \<noteq> Exec (SetScraped b a)) mid"
    proof (cases "segment w self a u (Inr ()) mid")
      case True
      from done_shape [OF this] have "?X \<in> set mid" by auto
      with that show ?thesis by (simp add: T)
    next
      case False
      with sh obtain e where "mid = [] \<or> segment w self a u (Inl e) mid" by blast
      then show ?thesis using segment_failed by auto
    qed
    with foreign_keeps_flag [OF pre] foreign_keeps_flag [OF post]
    have "list_all (\<lambda>e. \<forall>b. e \<noteq> Exec (SetScraped b a)) (pre @ mid @ post)"
      by simp
    from scraped_fold_foreign [OF this] show ?thesis
      by (simp add: s' flag0)
  qed
  show "(\<forall>before r after.
         new_events s s' = before @ Exec (InsertReview r) # after \<and> attr_ID r = a \<longrightarrow>
         (\<exists>x y n. Exec (UpdateAttraction x y n a) \<in> set before))
   \<and> (\<forall>before after.
         new_events s s' = before @ Exec (SetScraped True a) # after \<longrightarrow>
         (\<exists>head x y n seg.
             before = head @ Exec (UpdateAttraction x y n a) # seg
                      @ [Print (ScrapedSet a True)]
           \<and> list_all (foreign a) head
           \<and> list_all (page_level a) seg
           \<and> pages_scraped seg
             = generate_page_links (page_url w) (search_type self) (base_url self @ u)
                 (snd (snd (get_attr_details w (base_url self @ u))))
           \<and> list_all (foreign a) after))
   \<and> scraped_flags a (db s) = [False]
   \<and> (res = Inr () \<longrightarrow>
        Exec (SetScraped True a) \<in> set (new_events s s') \<and> scraped_flags a (db s') = [True])
   \<and> (Exec (SetScraped True a) \<notin> set (new_events s s') \<longrightarrow>
        scraped_flags a (db s') = [False])"
  proof (intro conjI allI impI)
    fix before r after
    assume "?T = before @ Exec (InsertReview r) # after \<and> attr_ID r = a"
    then have "?T = before @ Exec (InsertReview r) # after" "attr_ID r = a" by simp_all
    then show "\<exists>x y n. Exec (UpdateAttraction x y n a) \<in> set before" by (rule reviews)
  next
    fix before after
    assume "?T = before @ ?X # after"
    then show "\<exists>head x y n seg.
             before = head @ Exec (UpdateAttraction x y n a) # seg
                      @ [Print (ScrapedSet a True)]
           \<and> list_all (foreign a) head
           \<and> list_all (page_level a) seg
           \<and> pages_scraped seg
             = generate_page_links (page_url w) (search_type self) (base_url self @ u)
                 (snd (snd (get_attr_details w (base_url self @ u))))
           \<and> list_all (foreign a) after"
      by (rule flag)
  next
    show "scraped_flags a (db s) = [False]" by (rule flag0)
  next
    assume "res = Inr ()"
    from finished [OF this] show "?X \<in> set ?T" by (rule conjunct1)
  next
    assume "res = Inr ()"
    from finished [OF this] show "scraped_flags a (db s') = [True]" by (rule conjunct2)
  next
    assume "?X \<notin> set ?T"
    then show "scraped_flags a (db s') = [False]" by (rule unfinished)
  qed
qed

text \<open>The scenario of the specification, run on the example store.\<close>

lemma scrape_page_steady:
  "scrape_page steady_network link 42 index s
   = Some (Inr (),
       effects 1 ([Print (ScrapingPage link), Get link]
                  @ candidates_events link 42 index (traverse page0)) s)"
proof -
  let ?s0 = "requested 0 [Print (ScrapingPage link)] s"
  have "retrieve steady_network link index ?s0
      = Some (Inr page0, requested (0 + 0 + 1) (reloads 0 link @ [Get link] @ refetches 0 link index) ?s0)"
    by (rule retrieve_retries) (simp_all add: steady_network_def traverse_page0)
  then have "retrieve steady_network link index (emit (Print (ScrapingPage link)) s)
      = Some (Inr page0, requested 1 [Print (ScrapingPage link), Get link] s)"
    by (simp add: reloads_def refetches_def emit_requested)
  from scrape_page_data [OF this, of 42]
    candidates_well_formed [of "traverse page0" 42 link index] well_formed_page0
  show ?thesis
    by (simp add: well_formed_page_def after_events_effects requested_effects)
qed

lemma links0:
  "generate_page_links page_template ''reviews'' page_url0 2
   = [page_template ''reviews'' page_url0 0, page_template ''reviews'' page_url0 (Suc 0)]"
proof -
  have "[0..<nat (2::int)] = [0, 1]" by (simp add: upt_rec)
  then show ?thesis by (simp add: generate_page_links_def)
qed

lemma scrape_links_scenario:
  "scrape_links steady_network 42 0
     [page_template ''reviews'' page_url0 0, page_template ''reviews'' page_url0 (Suc 0)] s
   = Some (Inr (),
       effects 2 (page_events0 0 @ [Sleep PagePause] @ page_events0 (Suc 0) @ [Sleep PagePause])
         s)"
  by (simp add: scrape_page_steady emit_effects page_events0_def)

lemma world0_sel:
  "http world0 = steady_network"
  "get_attr_details world0 url = (Some (1, 2), 10, 2)"
  "page_url world0 = page_template"
  by (simp_all add: world0_def)

lemma scraper0_sel:
  "base_url scraper0 @ ''/Attraction-42'' = page_url0"
  "search_type scraper0 = ''reviews''"
  "attr_types scraper0 = TypesStr ''all''"
  by (simp_all add: scraper0_def page_url0_def)

lemma scrape_attraction_scenario:
  "scrape_attraction world0 scraper0 (42, ''/Attraction-42'') state0 = Some (Inr (), final0)"
  unfolding scrape_attraction_def
  by (simp add: world0_sel scraper0_sel links0 update_attraction_def scrape_links_scenario
      emit_effects update_record_effects set_scraped_def final0_def run_events0_def
      del: scrape_links.simps)

lemma do_scrape_scenario:
  "do_scrape world0 scraper0 state0 = Some (Inr (), final0)"
proof -
  have rows: "cursor_execute store0 query_template = Inr [(42, ''/Attraction-42'')]"
    by (simp add: cursor_execute_def store0_def)
  show ?thesis
    by (simp add: do_scrape_def read_attractions_def scraper0_sel rows
        scrape_attraction_scenario)
qed


lemma has_required_examples:
  "has_required record1" "has_required record2"
  by (simp_all add: record1_def record2_def required_keys_def)

lemma candidates_events_page0:
  "candidates_events url attr index (traverse page0)
   = missing_report ''reviews'' attr index (- 2) url
     # record_events url attr index 0 record1 @ record_events url attr index 1 record2"
proof -
  obtain v1 v2 where "required_fields attr record1 = Inr v1" "required_fields attr record2 = Inr v2"
    using has_required_examples has_required_fields by blast
  then show ?thesis
    by (simp add: traverse_page0 candidate_events_def candidate_outcome_def)
qed

lemma record_events_record1:
  "record_events url attr index ridx record1
   = [Print (UpdatingUser (JStr ''/Profile/ada'')), Exec (InsertUser (mapped_user record1)),
      Exec (InsertReview (mapped_review attr record1))]"
proof -
  have "\<not> absent record1 [''userProfile'', ''route'', ''url'']"
    "\<not> absent record1 [''userProfile'', ''hometown'']"
    "\<not> absent record1 [''userProfile'', ''contributionCounts'', ''sumAllUgc'']"
    "\<not> absent record1 [''userProfile'', ''contributionCounts'', ''helpfulVote'']"
    "profile (mapped_user record1) = JStr ''/Profile/ada''"
    by (simp_all add: absent_def mapped_user_def optional_def record1_def)
  then show ?thesis
    by (simp add: record_events_def optional_fields_def)
qed

theorem do_scrape_order_witness:
  "do_scrape world0 scraper0 state0 = Some (Inr (), final0)
   \<and> distinct (map row_id (attractions (db state0)))
   \<and> (42, ''/Attraction-42'') \<in> set (pending (db state0))
   \<and> new_events state0 final0 = run_events0
   \<and> (\<exists>after. run_events0
         = [Print (Details (Some (1, 2)) 10 2), Exec (UpdateAttraction 2 1 10 42),
            Print (ScrapingPage (page_template ''reviews'' page_url0 0)),
            Get (page_template ''reviews'' page_url0 0),
            missing_report ''reviews'' 42 0 (- 2) (page_template ''reviews'' page_url0 0),
            Print (UpdatingUser (JStr ''/Profile/ada'')), Exec (InsertUser (mapped_user record1))]
           @ Exec (InsertReview (mapped_review 42 record1)) # after)
   \<and> attr_ID (mapped_review 42 record1) = 42
   \<and> (\<exists>x y n. Exec (UpdateAttraction x y n 42)
         \<in> set [Print (Details (Some (1, 2)) 10 2), Exec (UpdateAttraction 2 1 10 42),
            Print (ScrapingPage (page_template ''reviews'' page_url0 0)),
            Get (page_template ''reviews'' page_url0 0),
            missing_report ''reviews'' 42 0 (- 2) (page_template ''reviews'' page_url0 0),
            Print (UpdatingUser (JStr ''/Profile/ada'')), Exec (InsertUser (mapped_user record1))])
   \<and> run_events0 = butlast run_events0 @ Exec (SetScraped True 42) # []
   \<and> (\<exists>head x y n seg.
         butlast run_events0
           = head @ Exec (UpdateAttraction x y n 42) # seg @ [Print (ScrapedSet 42 True)]
         \<and> list_all (foreign 42) head
         \<and> list_all (page_level 42) seg
         \<and> pages_scraped seg
           = [page_template ''reviews'' page_url0 0, page_template ''reviews'' page_url0 (Suc 0)])
   \<and> scraped_flags 42 (db state0) = [False]
   \<and> Exec (SetScraped True 42) \<in> set (new_events state0 final0)
   \<and> scraped_flags 42 (db final0) = [True]"
proof -
  let ?B = "[Print (Details (Some (1, 2)) 10 2), Exec (UpdateAttraction 2 1 10 42),
            Print (ScrapingPage (page_template ''reviews'' page_url0 0)),
            Get (page_template ''reviews'' page_url0 0),
            missing_report ''reviews'' 42 0 (- 2) (page_template ''reviews'' page_url0 0),
            Print (UpdatingUser (JStr ''/Profile/ada'')), Exec (InsertUser (mapped_user record1))]"
  let ?Y = "Exec (InsertReview (mapped_review 42 record1))"
  let ?X = "Exec (SetScraped True 42)"
  note inst = do_scrape_order [where w = world0 and self = scraper0 and s = state0
      and res = "Inr ()" and s' = final0 and a = 42 and u = "''/Attraction-42''"]
  have h1: "distinct (map row_id (attractions (db state0)))"
    by (simp add: store0_def)
  have h2: "(42, ''/Attraction-42'') \<in> set (pending (db state0))"
    by (simp add: pending_def store0_def)
  have T: "new_events state0 final0 = run_events0"
    by (simp add: final0_def)
  obtain after where dec: "run_events0 = ?B @ ?Y # after"
    by (simp add: run_events0_def page_events0_def candidates_events_page0 record_events_record1)
  have ra: "attr_ID (mapped_review 42 record1) = 42"
    by (simp add: mapped_review_def)
  have last: "run_events0 = butlast run_events0 @ ?X # []"
    by (simp add: run_events0_def butlast_append)
  from inst do_scrape_scenario h1 h2 have c:
    "(\<forall>before r after.
         new_events state0 final0 = before @ Exec (InsertReview r) # after \<and> attr_ID r = 42 \<longrightarrow>
         (\<exists>x y n. Exec (UpdateAttraction x y n 42) \<in> set before))"
    "(\<forall>before after.
         new_events state0 final0 = before @ ?X # after \<longrightarrow>
         (\<exists>head x y n seg.
             before = head @ Exec (UpdateAttraction x y n 42) # seg
                      @ [Print (ScrapedSet 42 True)]
           \<and> list_all (foreign 42) head
           \<and> list_all (page_level 42) seg
           \<and> pages_scraped seg
             = generate_page_links (page_url world0) (search_type scraper0)
                 (base_url scraper0 @ ''/Attraction-42'')
                 (snd (snd (get_attr_details world0 (base_url scraper0 @ ''/Attraction-42''))))
           \<and> list_all (foreign 42) after))"
    "scraped_flags 42 (db state0) = [False]"
    "Exec (SetScraped True 42) \<in> set (new_events state0 final0)"
    "scraped_flags 42 (db final0) = [True]"
    by blast+
  from c(1) T dec ra have r1: "\<exists>x y n. Exec (UpdateAttraction x y n 42) \<in> set ?B"
    by metis
  from c(2) T last have "\<exists>head x y n seg.
             butlast run_events0 = head @ Exec (UpdateAttraction x y n 42) # seg
                      @ [Print (ScrapedSet 42 True)]
           \<and> list_all (foreign 42) head
           \<and> list_all (page_level 42) seg
           \<and> pages_scraped seg
             = generate_page_links (page_url world0) (search_type scraper0)
                 (base_url scraper0 @ ''/Attraction-42'')
                 (snd (snd (get_attr_details world0 (base_url scraper0 @ ''/Attraction-42''))))
           \<and> list_all (foreign 42) []"
    by metis
  then have r2: "\<exists>head x y n seg.
         butlast run_events0
           = head @ Exec (UpdateAttraction x y n 42) # seg @ [Print (ScrapedSet 42 True)]
         \<and> list_all (foreign 42) head
         \<and> list_all (page_level 42) seg
         \<and> pages_scraped seg
           = [page_template ''reviews'' page_url0 0, page_template ''reviews'' page_url0 (Suc 0)]"
    by (simp add: world0_sel scraper0_sel links0)
  from dec have d: "\<exists>after. run_events0 = ?B @ ?Y # after" by blast
  from do_scrape_scenario h1 h2 T d ra r1 last r2 c(3,4,5) show ?thesis
    by (intro conjI)
qed

end
